theory Spec2Isabelle
  imports Main "HOL-Library.Char_ord" "HOL-Library.List_Lexorder"
begin

text \<open>
  A model of the three parts of the will-management system that carry its rules: the
  indexer, which projects the contract's events onto an SQLite replica (\<open>db.js\<close>,
  \<open>indexer.js\<close>), the read API over the replica (\<open>api.js\<close>), and the contract
  itself (\<open>DecentralizedWillManager.sol\<close>). The definitions come first, in this order,
  each written after the source function whose name it bears; the lemmas and the
  theorems about them follow.
\<close>

section \<open>The event projection (indexer: db.js and indexer.js)\<close>

subsection \<open>JavaScript values\<close>

text \<open>
  \<open>String.prototype.toLowerCase\<close> on the strings the indexer handles: addresses and
  identifiers in ASCII. The letters \<open>A\<close> to \<open>Z\<close> are mapped to \<open>a\<close> to \<open>z\<close>, every other
  character is kept.
\<close>

definition lower_char :: "char \<Rightarrow> char" where
  "lower_char c =
     (case map_of (zip ''ABCDEFGHIJKLMNOPQRSTUVWXYZ'' ''abcdefghijklmnopqrstuvwxyz'') c of
        Some l \<Rightarrow> l
      | None \<Rightarrow> c)"

definition toLowerCase :: "string \<Rightarrow> string" where
  "toLowerCase s = map lower_char s"

text \<open>
  \<open>Number(x)\<close> of a non-negative BigInt \<open>x\<close> (an event argument of type \<open>uint256\<close>):
  the nearest IEEE 754 double, ties to even. Integers below \<open>2^53\<close> are kept; above,
  the value is rounded to 53 significant bits (a \<open>uint256\<close> is below the overflow
  threshold of a double).
\<close>

fun bit_length :: "nat \<Rightarrow> nat" where
  "bit_length n = (if n = 0 then 0 else Suc (bit_length (n div 2)))"

definition Number :: "nat \<Rightarrow> nat" where
  "Number n =
     (if n < 2 ^ 53 then n
      else let k = bit_length n - 53;
               q = n div 2 ^ k;
               r = n mod 2 ^ k;
               half = 2 ^ (k - 1)
           in (if r > half \<or> (r = half \<and> odd q) then q + 1 else q) * 2 ^ k)"

subsection \<open>The SQLite replica\<close>

text \<open>
  The four tables of \<open>createTables\<close>, each a list of rows in rowid order. \<open>balance\<close> is a
  TEXT column that holds \<open>finalBalance.toString()\<close> of a BigInt and is read back with
  \<open>BigInt(result.balance)\<close>: the model keeps the integer. \<open>guardian\<close> is nullable.
  The two AUTOINCREMENT keys take their values from the \<open>sqlite_sequence\<close> counters,
  which never reuse an id. Foreign keys are enforced (\<open>PRAGMA foreign_keys = ON\<close>).
\<close>

record will_row =
  w_willId :: string
  w_testator :: string
  w_guardian :: "string option"
  w_checkInPeriod :: nat
  w_disputePeriod :: nat
  w_lastCheckIn :: nat
  w_executed :: nat
  w_createdAt :: nat
  w_updatedAt :: nat

record beneficiary_row =
  b_id :: nat
  b_willId :: string
  b_beneficiary :: string
  b_share :: nat

record vault_row =
  v_willId :: string
  v_vaultType :: string
  v_balance :: int

record document_row =
  d_id :: nat
  d_willId :: string
  d_ipfsHash :: string
  d_fileName :: string
  d_documentType :: string
  d_uploadedAt :: nat

record database =
  Wills :: "will_row list"
  Beneficiaries :: "beneficiary_row list"
  Vaults :: "vault_row list"
  Documents :: "document_row list"
  seq_Beneficiaries :: nat
  seq_Documents :: nat

definition empty_database :: database where
  "empty_database = \<lparr>Wills = [], Beneficiaries = [], Vaults = [], Documents = [],
     seq_Beneficiaries = 0, seq_Documents = 0\<rparr>"

datatype sqlite_error = SQLITE_CONSTRAINT_FOREIGNKEY | SQLITE_CONSTRAINT_CHECK

definition will_exists :: "database \<Rightarrow> string \<Rightarrow> bool" where
  "will_exists db willId = (filter (\<lambda>w. w_willId w = willId) (Wills db) \<noteq> [])"

subsection \<open>Will operations\<close>

text \<open>
  \<open>now\<close> is the value of \<open>Math.floor(Date.now() / 1000)\<close> read by the operation.
  \<open>INSERT OR REPLACE\<close> deletes the rows that conflict on the primary key or on a UNIQUE
  constraint and inserts the new row at the end; columns not listed take their default
  (\<open>guardian\<close> NULL, \<open>executed\<close> 0). The parent key of the replaced will row is
  inserted again in the same statement, so its child rows stay.
\<close>

definition initializeVaults :: "string \<Rightarrow> database \<Rightarrow> database" where
  "initializeVaults willId db =
     (let ins = (\<lambda>vt vs.
        if filter (\<lambda>v. v_willId v = willId \<and> v_vaultType v = vt) vs \<noteq> [] then vs
        else vs @ [\<lparr>v_willId = willId, v_vaultType = vt, v_balance = 0\<rparr>])
      in db\<lparr>Vaults := ins ''flexible'' (ins ''locked'' (Vaults db))\<rparr>)"

definition db_createWill :: "nat \<Rightarrow> string \<Rightarrow> nat \<Rightarrow> nat \<Rightarrow> database \<Rightarrow> sqlite_error + database" where
  "db_createWill now testator checkInPeriod disputePeriod db =
     (let willId = toLowerCase testator in
      Inr (initializeVaults willId
        (db\<lparr>Wills := filter (\<lambda>w. w_willId w \<noteq> willId) (Wills db) @
           [\<lparr>w_willId = willId, w_testator = toLowerCase testator, w_guardian = None,
             w_checkInPeriod = checkInPeriod, w_disputePeriod = disputePeriod,
             w_lastCheckIn = now, w_executed = 0, w_createdAt = now,
             w_updatedAt = now\<rparr>]\<rparr>)))"

definition db_updateLastCheckIn :: "nat \<Rightarrow> string \<Rightarrow> nat \<Rightarrow> database \<Rightarrow> sqlite_error + database" where
  "db_updateLastCheckIn now testator timestamp db =
     Inr (db\<lparr>Wills := map (\<lambda>w. if w_testator w = toLowerCase testator
                                then w\<lparr>w_lastCheckIn := timestamp, w_updatedAt := now\<rparr>
                                else w) (Wills db)\<rparr>)"

definition db_executeWill :: "nat \<Rightarrow> string \<Rightarrow> database \<Rightarrow> sqlite_error + database" where
  "db_executeWill now testator db =
     Inr (db\<lparr>Wills := map (\<lambda>w. if w_testator w = toLowerCase testator
                                then w\<lparr>w_executed := 1, w_updatedAt := now\<rparr>
                                else w) (Wills db)\<rparr>)"

subsection \<open>Beneficiary operations\<close>

definition updateGuardian :: "nat \<Rightarrow> string \<Rightarrow> string \<Rightarrow> database \<Rightarrow> database" where
  "updateGuardian now willId guardian db =
     db\<lparr>Wills := map (\<lambda>w. if w_willId w = willId
                           then w\<lparr>w_guardian := Some (toLowerCase guardian), w_updatedAt := now\<rparr>
                           else w) (Wills db)\<rparr>"

definition db_addBeneficiary ::
  "nat \<Rightarrow> string \<Rightarrow> string \<Rightarrow> nat \<Rightarrow> bool \<Rightarrow> database \<Rightarrow> sqlite_error + database" where
  "db_addBeneficiary now testator beneficiary share isGuardian db =
     (let willId = toLowerCase testator in
      if \<not> will_exists db willId then Inl SQLITE_CONSTRAINT_FOREIGNKEY
      else
        (let db1 = db\<lparr>Beneficiaries :=
                      filter (\<lambda>b. \<not> (b_willId b = willId \<and>
                                      b_beneficiary b = toLowerCase beneficiary))
                        (Beneficiaries db) @
                      [\<lparr>b_id = seq_Beneficiaries db + 1, b_willId = willId,
                        b_beneficiary = toLowerCase beneficiary, b_share = share\<rparr>],
                    seq_Beneficiaries := seq_Beneficiaries db + 1\<rparr>
         in Inr (if isGuardian then updateGuardian now willId beneficiary db1 else db1)))"

definition db_removeBeneficiary :: "nat \<Rightarrow> string \<Rightarrow> string \<Rightarrow> database \<Rightarrow> sqlite_error + database" where
  "db_removeBeneficiary now testator beneficiary db =
     (let willId = toLowerCase testator in
      Inr (db\<lparr>Beneficiaries :=
                filter (\<lambda>b. \<not> (b_willId b = willId \<and>
                                b_beneficiary b = toLowerCase beneficiary))
                  (Beneficiaries db),
              Wills := map (\<lambda>w. if w_willId w = willId \<and>
                                    w_guardian w = Some (toLowerCase beneficiary)
                                 then w\<lparr>w_guardian := None, w_updatedAt := now\<rparr>
                                 else w) (Wills db)\<rparr>))"

definition db_updateBeneficiary ::
  "nat \<Rightarrow> string \<Rightarrow> string \<Rightarrow> nat \<Rightarrow> bool \<Rightarrow> database \<Rightarrow> sqlite_error + database" where
  "db_updateBeneficiary now testator beneficiary newShare isGuardian db =
     (let willId = toLowerCase testator;
          db1 = db\<lparr>Beneficiaries :=
                     map (\<lambda>b. if b_willId b = willId \<and>
                                  b_beneficiary b = toLowerCase beneficiary
                               then b\<lparr>b_share := newShare\<rparr> else b)
                       (Beneficiaries db)\<rparr>
      in Inr (if isGuardian then updateGuardian now willId beneficiary db1 else db1))"

subsection \<open>Vault operations\<close>

text \<open>
  \<open>updateVaultBalance\<close> reads the stored balance (\<open>'0'\<close> when there is no row), adds or
  subtracts the amount of the event, replaces a negative result by 0 and writes the
  row back. The write is subject to the CHECK on \<open>vaultType\<close> and to the foreign key
  on \<open>willId\<close>.
\<close>

definition currentBalance :: "database \<Rightarrow> string \<Rightarrow> string \<Rightarrow> int" where
  "currentBalance db willId vaultType =
     (case filter (\<lambda>v. v_willId v = willId \<and> v_vaultType v = vaultType) (Vaults db) of
        [] \<Rightarrow> 0
      | result # others \<Rightarrow> v_balance result)"

definition db_updateVaultBalance ::
  "string \<Rightarrow> string \<Rightarrow> nat \<Rightarrow> bool \<Rightarrow> database \<Rightarrow> sqlite_error + database" where
  "db_updateVaultBalance testator vaultType amount isDeposit db =
     (let willId = toLowerCase testator;
          changeAmount = int amount;
          newBalance = (if isDeposit then currentBalance db willId vaultType + changeAmount
                        else currentBalance db willId vaultType - changeAmount);
          finalBalance = (if newBalance < 0 then 0 else newBalance)
      in if vaultType \<noteq> ''locked'' \<and> vaultType \<noteq> ''flexible'' then Inl SQLITE_CONSTRAINT_CHECK
         else if \<not> will_exists db willId then Inl SQLITE_CONSTRAINT_FOREIGNKEY
         else Inr (db\<lparr>Vaults :=
                filter (\<lambda>v. \<not> (v_willId v = willId \<and> v_vaultType v = vaultType)) (Vaults db) @
                [\<lparr>v_willId = willId, v_vaultType = vaultType, v_balance = finalBalance\<rparr>]\<rparr>))"

subsection \<open>Document operations\<close>

definition db_addDocument ::
  "string \<Rightarrow> string \<Rightarrow> string \<Rightarrow> string \<Rightarrow> nat \<Rightarrow> database \<Rightarrow> sqlite_error + database" where
  "db_addDocument testator ipfsHash fileName documentType uploadedAt db =
     (let willId = toLowerCase testator in
      if \<not> will_exists db willId then Inl SQLITE_CONSTRAINT_FOREIGNKEY
      else Inr (db\<lparr>Documents :=
                  filter (\<lambda>d. \<not> (d_willId d = willId \<and> d_ipfsHash d = ipfsHash))
                    (Documents db) @
                  [\<lparr>d_id = seq_Documents db + 1, d_willId = willId, d_ipfsHash = ipfsHash,
                    d_fileName = fileName, d_documentType = documentType,
                    d_uploadedAt = uploadedAt\<rparr>],
                seq_Documents := seq_Documents db + 1\<rparr>))"

definition db_removeDocument :: "string \<Rightarrow> string \<Rightarrow> database \<Rightarrow> sqlite_error + database" where
  "db_removeDocument testator ipfsHash db =
     (let willId = toLowerCase testator in
      Inr (db\<lparr>Documents :=
                filter (\<lambda>d. \<not> (d_willId d = willId \<and> d_ipfsHash d = ipfsHash))
                  (Documents db)\<rparr>))"

subsection \<open>The indexer: live listeners and historical backfill\<close>

text \<open>
  An event as the indexer receives it from the contract interface: the arguments of
  the log, addresses as strings, \<open>uint256\<close> arguments as BigInt. For \<open>DocumentAdded\<close>
  the last field is the timestamp of the event's block when the block lookup succeeds
  (\<open>event.getBlock()\<close>, \<open>provider.getBlock(log.blockNumber)\<close>) and \<open>None\<close> when it
  fails; the continuation of the lookup is taken to run before the next event is
  handled. \<open>UnknownEv\<close> is a parsed log of any other name.
\<close>

datatype event =
    WillCreatedEv string nat nat
  | CheckInEv string nat
  | WillExecutedEv string nat
  | BeneficiaryAddedEv string string nat bool
  | BeneficiaryRemovedEv string string
  | BeneficiaryUpdatedEv string string nat bool
  | DepositLockedEv string nat
  | DepositFlexibleEv string nat
  | WithdrawFlexibleEv string nat
  | DisputeStartedEv string nat
  | DocumentAddedEv string string string string "nat option"
  | DocumentRemovedEv string string
  | UnknownEv string

text \<open>
  Every listener and every case of \<open>processHistoricalEvent\<close> runs its database call
  inside \<open>try\<close>/\<open>catch\<close>: an exception is logged and the replica stays as the failed
  statement left it, which is unchanged (the only statements that throw are the first
  write of their operation).
\<close>

definition catch :: "sqlite_error + database \<Rightarrow> database \<Rightarrow> database" where
  "catch r db = (case r of Inl err \<Rightarrow> db | Inr db' \<Rightarrow> db')"

fun db_call :: "nat \<Rightarrow> event \<Rightarrow> database \<Rightarrow> sqlite_error + database" where
  "db_call now (WillCreatedEv testator checkInPeriod disputePeriod) db =
     db_createWill now testator (Number checkInPeriod) (Number disputePeriod) db"
| "db_call now (CheckInEv testator timestamp) db =
     db_updateLastCheckIn now testator (Number timestamp) db"
| "db_call now (WillExecutedEv testator totalDistributed) db = db_executeWill now testator db"
| "db_call now (BeneficiaryAddedEv testator beneficiary share isGuardian) db =
     db_addBeneficiary now testator beneficiary (Number share) isGuardian db"
| "db_call now (BeneficiaryRemovedEv testator beneficiary) db =
     db_removeBeneficiary now testator beneficiary db"
| "db_call now (BeneficiaryUpdatedEv testator beneficiary newShare isGuardian) db =
     db_updateBeneficiary now testator beneficiary (Number newShare) isGuardian db"
| "db_call now (DepositLockedEv testator amount) db =
     db_updateVaultBalance testator ''locked'' amount True db"
| "db_call now (DepositFlexibleEv testator amount) db =
     db_updateVaultBalance testator ''flexible'' amount True db"
| "db_call now (WithdrawFlexibleEv testator amount) db =
     db_updateVaultBalance testator ''flexible'' amount False db"
| "db_call now (DisputeStartedEv testator disputeDeadline) db = Inr db"
| "db_call now (DocumentAddedEv testator ipfsHash fileName documentType (Some timestamp)) db =
     db_addDocument testator ipfsHash fileName documentType timestamp db"
| "db_call now (DocumentAddedEv testator ipfsHash fileName documentType None) db =
     db_addDocument testator ipfsHash fileName documentType now db"
| "db_call now (DocumentRemovedEv testator ipfsHash) db = db_removeDocument testator ipfsHash db"
| "db_call now (UnknownEv name) db = Inr db"

text \<open>
  The live listeners of \<open>setupEventListeners\<close>: when the block lookup of a
  \<open>DocumentAdded\<close> event fails the document is stored with the current time. There is
  no listener for a log of an unknown name.
\<close>

definition listener :: "nat \<Rightarrow> event \<Rightarrow> database \<Rightarrow> database" where
  "listener now ev db = catch (db_call now ev db) db"

text \<open>
  \<open>processHistoricalEvent\<close>: the same calls; a failed block lookup throws inside the
  \<open>try\<close> and the event is skipped.
\<close>

fun processHistoricalEvent :: "nat \<Rightarrow> event \<Rightarrow> database \<Rightarrow> database" where
  "processHistoricalEvent now (DocumentAddedEv testator ipfsHash fileName documentType None) db = db"
| "processHistoricalEvent now ev db = catch (db_call now ev db) db"

text \<open>
  A run of the indexer over a sequence of events, each paired with the clock reading
  of the moment it is applied. \<open>syncHistoricalEvents\<close> walks the logs returned by
  \<open>getLogs\<close>; a log that \<open>parseLog\<close> cannot parse (\<open>None\<close>) is skipped with a warning.
\<close>

fun liveEvents :: "(nat \<times> event) list \<Rightarrow> database \<Rightarrow> database" where
  "liveEvents [] db = db"
| "liveEvents ((now, ev) # rest) db = liveEvents rest (listener now ev db)"

fun syncHistoricalEvents :: "(nat \<times> event option) list \<Rightarrow> database \<Rightarrow> database" where
  "syncHistoricalEvents [] db = db"
| "syncHistoricalEvents ((now, None) # logs) db = syncHistoricalEvents logs db"
| "syncHistoricalEvents ((now, Some ev) # logs) db =
     syncHistoricalEvents logs (processHistoricalEvent now ev db)"

subsection \<open>Query functions for the API\<close>

text \<open>
  The \<open>SELECT\<close> statements of \<open>db.js\<close>. SQL leaves the order of the rows of a statement
  without \<open>ORDER BY\<close> open; SQLite returns them in the order of the access path it
  takes, which for these tables and statements is
  \<^item> a scan of the table in rowid order (the order of the row lists of the model) for
    \<open>Wills WHERE testator = ?\<close> and for \<open>Beneficiaries\<close> in the join on \<open>b.beneficiary = ?\<close>,
    each beneficiary row being paired with the will found for its \<open>willId\<close>;
  \<^item> a search of the automatic index of the \<open>PRIMARY KEY\<close> or \<open>UNIQUE\<close> constraint for a
    statement \<open>WHERE willId = ?\<close>, which yields the rows in the order of the next index
    column: \<open>vaultType\<close> for \<open>Vaults\<close>, \<open>beneficiary\<close> for \<open>Beneficiaries\<close>, \<open>ipfsHash\<close>
    for \<open>Documents\<close>. TEXT values compare byte by byte, which is the order of \<open>string\<close>.
  \<open>ORDER BY uploadedAt DESC\<close> sorts the rows so found on that column, rows of equal
  \<open>uploadedAt\<close> staying in the order in which they were found (\<open>sort_key\<close> is stable; the
  two reversals turn it into a stable descending sort). \<open>stmt.get\<close> returns the first
  row or nothing.
\<close>

definition getDocuments :: "database \<Rightarrow> string \<Rightarrow> (string \<times> string \<times> string \<times> nat) list" where
  "getDocuments db willId =
     map (\<lambda>d. (d_ipfsHash d, d_fileName d, d_documentType d, d_uploadedAt d))
       (rev (sort_key d_uploadedAt (rev (sort_key d_ipfsHash
          (filter (\<lambda>d. d_willId d = toLowerCase willId) (Documents db))))))"

definition getDocumentByHash :: "database \<Rightarrow> string \<Rightarrow> string \<Rightarrow> document_row option" where
  "getDocumentByHash db willId ipfsHash =
     (case filter (\<lambda>d. d_willId d = toLowerCase willId \<and> d_ipfsHash d = ipfsHash)
             (Documents db) of
        [] \<Rightarrow> None
      | document # others \<Rightarrow> Some document)"

definition getWillsByTestator :: "database \<Rightarrow> string \<Rightarrow> will_row list" where
  "getWillsByTestator db testator =
     filter (\<lambda>w. w_testator w = toLowerCase testator) (Wills db)"

definition getWillsByBeneficiary :: "database \<Rightarrow> string \<Rightarrow> (will_row \<times> nat) list" where
  "getWillsByBeneficiary db beneficiary =
     concat (map (\<lambda>b. map (\<lambda>w. (w, b_share b))
                   (filter (\<lambda>w. w_willId w = b_willId b) (Wills db)))
               (filter (\<lambda>b. b_beneficiary b = toLowerCase beneficiary) (Beneficiaries db)))"

record will_details =
  wd_will :: will_row
  wd_beneficiaries :: "(string \<times> nat) list"
  wd_vaults :: "(string \<times> int) list"
  wd_documents :: "(string \<times> string \<times> string \<times> nat) list"

definition getVaults :: "database \<Rightarrow> string \<Rightarrow> (string \<times> int) list" where
  "getVaults db willId =
     map (\<lambda>v. (v_vaultType v, v_balance v))
       (sort_key v_vaultType (filter (\<lambda>v. v_willId v = toLowerCase willId) (Vaults db)))"

definition getWillDetails :: "database \<Rightarrow> string \<Rightarrow> will_details option" where
  "getWillDetails db willId =
     (case filter (\<lambda>w. w_willId w = toLowerCase willId) (Wills db) of
        [] \<Rightarrow> None
      | will # others \<Rightarrow>
          Some \<lparr>wd_will = will,
                wd_beneficiaries =
                  map (\<lambda>b. (b_beneficiary b, b_share b))
                    (sort_key b_beneficiary
                       (filter (\<lambda>b. b_willId b = toLowerCase willId) (Beneficiaries db))),
                wd_vaults = getVaults db willId,
                wd_documents = getDocuments db willId\<rparr>)"

definition getBeneficiaryWills ::
  "database \<Rightarrow> string \<Rightarrow> (string \<times> string \<times> nat \<times> nat) list" where
  "getBeneficiaryWills db beneficiary =
     map (\<lambda>(w, sh). (w_willId w, w_testator w, w_executed w, sh))
       (getWillsByBeneficiary db beneficiary)"

section \<open>The query API (api.js)\<close>

text \<open>
  The validation helpers: \<open>/^0x[a-fA-F0-9]{40}$/\<close> and
  \<open>/^(Qm[1-9A-HJ-NP-Za-km-z]{44}|bafyb[a-z2-7]{50,})$/\<close>, tested against the whole
  parameter.
\<close>

definition isValidAddress :: "string \<Rightarrow> bool" where
  "isValidAddress address =
     (take 2 address = ''0x'' \<and> length (drop 2 address) = 40 \<and>
      list_all (\<lambda>c. c \<in> set ''abcdefABCDEF0123456789'') (drop 2 address))"

definition isValidIpfsHash :: "string \<Rightarrow> bool" where
  "isValidIpfsHash hash =
     ((take 2 hash = ''Qm'' \<and> length (drop 2 hash) = 44 \<and>
       list_all (\<lambda>c. c \<in> set ''123456789ABCDEFGHJKLMNPQRSTUVWXYZabcdefghijkmnopqrstuvwxyz'')
         (drop 2 hash)) \<or>
      (take 5 hash = ''bafyb'' \<and> 50 \<le> length (drop 5 hash) \<and>
       list_all (\<lambda>c. c \<in> set ''abcdefghijklmnopqrstuvwxyz234567'') (drop 5 hash)))"

text \<open>
  The database as a handler sees it: it answers, or every statement throws an
  \<open>Error\<close> with a message (closed, locked or corrupt file).
\<close>

datatype db_handle = Up database | Down string

definition query :: "db_handle \<Rightarrow> (database \<Rightarrow> 'a) \<Rightarrow> string + 'a" where
  "query h q = (case h of Up db \<Rightarrow> Inr (q db) | Down message \<Rightarrow> Inl message)"

text \<open>
  A response: the HTTP status and the JSON body. \<open>res.json\<close> without \<open>res.status\<close>
  answers 200. A failure body holds \<open>error\<close> and, for a 500, \<open>details\<close>, which is
  \<open>error.message\<close> when \<open>NODE_ENV\<close> is \<open>development\<close> and undefined otherwise.
\<close>

datatype data =
    WillRows "will_row list" nat
  | WillShareRows "(will_row \<times> nat) list" nat
  | WillDetailsData will_details
  | BeneficiaryWillRows "(string \<times> string \<times> nat \<times> nat) list" nat
  | VaultData string "string \<Rightarrow> int option" "(string \<times> int) list"
  | DocumentRows string "(string \<times> string \<times> string \<times> nat) list" nat
  | DocumentData document_row

datatype response = Success nat data | Failure nat string "string option"

definition handleError :: "bool \<Rightarrow> string \<Rightarrow> string \<Rightarrow> response" where
  "handleError development error_message message =
     Failure 500 message (if development then Some error_message else None)"

text \<open>
  The global error handler, registered after the routes: it answers an error that
  reaches it from outside the \<open>try\<close> blocks of the handlers, that is an error raised by
  the middleware or by the router before a handler runs.
\<close>

definition global_error_handler :: "bool \<Rightarrow> string \<Rightarrow> response" where
  "global_error_handler development error_message =
     handleError development error_message ''Unexpected server error''"

definition get_wills_testator :: "bool \<Rightarrow> db_handle \<Rightarrow> string \<Rightarrow> response" where
  "get_wills_testator development h testator =
     (if \<not> isValidAddress testator
      then Failure 400 ''Invalid testator address format'' None
      else case query h (\<lambda>db. getWillsByTestator db testator) of
             Inl err \<Rightarrow> handleError development err ''Failed to fetch wills by testator''
           | Inr wills \<Rightarrow> Success 200 (WillRows wills (length wills)))"

definition get_wills_beneficiary :: "bool \<Rightarrow> db_handle \<Rightarrow> string \<Rightarrow> response" where
  "get_wills_beneficiary development h beneficiary =
     (if \<not> isValidAddress beneficiary
      then Failure 400 ''Invalid beneficiary address format'' None
      else case query h (\<lambda>db. getWillsByBeneficiary db beneficiary) of
             Inl err \<Rightarrow> handleError development err ''Failed to fetch wills by beneficiary''
           | Inr wills \<Rightarrow> Success 200 (WillShareRows wills (length wills)))"

definition get_will :: "bool \<Rightarrow> db_handle \<Rightarrow> string \<Rightarrow> response" where
  "get_will development h ident =
     (if \<not> isValidAddress ident
      then Failure 400 ''Invalid will ID format (should be testator address)'' None
      else case query h (\<lambda>db. getWillDetails db ident) of
             Inl err \<Rightarrow> handleError development err ''Failed to fetch will details''
           | Inr None \<Rightarrow> Failure 404 ''Will not found'' None
           | Inr (Some willDetails) \<Rightarrow> Success 200 (WillDetailsData willDetails))"

definition get_beneficiaries :: "bool \<Rightarrow> db_handle \<Rightarrow> string \<Rightarrow> response" where
  "get_beneficiaries development h beneficiary =
     (if \<not> isValidAddress beneficiary
      then Failure 400 ''Invalid beneficiary address format'' None
      else case query h (\<lambda>db. getBeneficiaryWills db beneficiary) of
             Inl err \<Rightarrow> handleError development err ''Failed to fetch beneficiary wills''
           | Inr beneficiaryWills \<Rightarrow>
               Success 200 (BeneficiaryWillRows beneficiaryWills (length beneficiaryWills)))"

text \<open>
  \<open>/vaults/:willId\<close> turns the rows into an object keyed by vault type (a later row of
  the same type overwrites an earlier one) and returns it with the rows.
\<close>

definition get_vaults :: "bool \<Rightarrow> db_handle \<Rightarrow> string \<Rightarrow> response" where
  "get_vaults development h willId =
     (if \<not> isValidAddress willId
      then Failure 400 ''Invalid will ID format (should be testator address)'' None
      else case query h (\<lambda>db. getVaults db willId) of
             Inl err \<Rightarrow> handleError development err ''Failed to fetch vault balances''
           | Inr vaults \<Rightarrow> Success 200 (VaultData willId (map_of (rev vaults)) vaults))"

definition get_documents :: "bool \<Rightarrow> db_handle \<Rightarrow> string \<Rightarrow> response" where
  "get_documents development h willId =
     (if \<not> isValidAddress willId
      then Failure 400 ''Invalid will ID format (should be testator address)'' None
      else case query h (\<lambda>db. getDocuments db willId) of
             Inl err \<Rightarrow> handleError development err ''Failed to fetch documents''
           | Inr documents \<Rightarrow> Success 200 (DocumentRows willId documents (length documents)))"

definition get_document :: "bool \<Rightarrow> db_handle \<Rightarrow> string \<Rightarrow> string \<Rightarrow> response" where
  "get_document development h willId ipfsHash =
     (if \<not> isValidAddress willId
      then Failure 400 ''Invalid will ID format (should be testator address)'' None
      else if \<not> isValidIpfsHash ipfsHash
      then Failure 400 ''Invalid IPFS hash format'' None
      else case query h (\<lambda>db. getDocumentByHash db willId ipfsHash) of
             Inl err \<Rightarrow> handleError development err ''Failed to fetch document''
           | Inr None \<Rightarrow> Failure 404 ''Document not found'' None
           | Inr (Some document) \<Rightarrow> Success 200 (DocumentData document))"

text \<open>
  The read endpoints that take an identity parameter, as requests. \<open>/health\<close> and
  \<open>/stats\<close> take none.
\<close>

datatype request =
    GetWillsByTestator string
  | GetWillsByBeneficiary string
  | GetWill string
  | GetBeneficiaries string
  | GetVaults string
  | GetDocuments string
  | GetDocument string string

fun serve :: "bool \<Rightarrow> db_handle \<Rightarrow> request \<Rightarrow> response" where
  "serve development h (GetWillsByTestator testator) = get_wills_testator development h testator"
| "serve development h (GetWillsByBeneficiary beneficiary) =
     get_wills_beneficiary development h beneficiary"
| "serve development h (GetWill ident) = get_will development h ident"
| "serve development h (GetBeneficiaries beneficiary) = get_beneficiaries development h beneficiary"
| "serve development h (GetVaults willId) = get_vaults development h willId"
| "serve development h (GetDocuments willId) = get_documents development h willId"
| "serve development h (GetDocument willId ipfsHash) = get_document development h willId ipfsHash"

section \<open>The will-manager contract (DecentralizedWillManager)\<close>

text \<open>
  Solidity \<open>^0.8.0\<close>: \<open>uint256\<close> arithmetic is checked, an overflow or underflow
  aborts the call with \<open>Panic(0x11)\<close>. A \<open>uint256\<close> is modelled as a natural
  number and every \<open>+\<close>, \<open>-\<close> and \<open>*\<close> of the source goes through a checked
  operation. An \<open>address\<close> is a natural number too, \<open>address(0)\<close> is \<open>0\<close>.
  A failed \<open>require\<close> is \<open>Revert\<close> with the message of the source; a revert that
  carries no data is \<open>RevertNoData\<close>. \<open>OutOfFuel\<close> is not an error of the contract: it is
  the result of the functions of the section on re-entrant calls when the bound on their
  recursion is used up.
\<close>

type_synonym address = nat

type_synonym uint256 = nat

definition UINT256_MAX :: nat where
  "UINT256_MAX = 2 ^ 256 - 1"

datatype error = Revert string | Panic nat | RevertNoData | OutOfFuel

definition checked_add :: "uint256 \<Rightarrow> uint256 \<Rightarrow> error + uint256" where
  "checked_add a b = (if a + b \<le> UINT256_MAX then Inr (a + b) else Inl (Panic 17))"

definition checked_sub :: "uint256 \<Rightarrow> uint256 \<Rightarrow> error + uint256" where
  "checked_sub a b = (if b \<le> a then Inr (a - b) else Inl (Panic 17))"

definition checked_mul :: "uint256 \<Rightarrow> uint256 \<Rightarrow> error + uint256" where
  "checked_mul a b = (if a * b \<le> UINT256_MAX then Inr (a * b) else Inl (Panic 17))"

definition require :: "bool \<Rightarrow> string \<Rightarrow> error + 'a \<Rightarrow> error + 'a" where
  "require c msg rest = (if c then rest else Inl (Revert msg))"

record Beneficiary =
  wallet :: address
  share :: uint256
  isGuardian :: bool

record Will =
  testator :: address
  beneficiaries :: "Beneficiary list"
  lockedVault :: uint256
  flexibleVault :: uint256
  lastCheckIn :: uint256
  checkInPeriod :: uint256
  disputePeriod :: uint256
  executed :: bool

text \<open>\<open>mapping(address => Will) public wills\<close>: every key holds the zero will at first.\<close>

type_synonym wills = "address \<Rightarrow> Will"

definition zero_Will :: Will where
  "zero_Will = \<lparr>testator = 0, beneficiaries = [], lockedVault = 0, flexibleVault = 0,
     lastCheckIn = 0, checkInPeriod = 0, disputePeriod = 0, executed = False\<rparr>"

definition initial_wills :: wills where
  "initial_wills = (\<lambda>a. zero_Will)"

datatype log =
    WillCreated address uint256 uint256
  | BeneficiaryAdded address address uint256 bool
  | BeneficiaryUpdated address address uint256 bool
  | BeneficiaryRemoved address address
  | DepositLocked address uint256
  | DepositFlexible address uint256
  | WithdrawFlexible address uint256
  | CheckIn address uint256
  | WillExecuted address uint256
  | DisputeStarted address uint256

text \<open>
  What a call does besides changing storage: value sent by
  \<open>addr.call{value: amount}("")\<close> and events emitted, in program order.
\<close>

datatype effect = Transfer address uint256 | Emit log

text \<open>
  The environment of one call: \<open>msg.sender\<close>, \<open>msg.value\<close>, \<open>block.timestamp\<close>, and
  whether a value transfer \<open>addr.call{value: amount}("")\<close> made by the call goes through
  (the contract holds the amount and the recipient accepts it). In the functions of this
  section the recipient does not call back into the contract while it is being paid;
  recipients that do are the subject of the section on re-entrant calls.
\<close>

record env =
  msg_sender :: address
  msg_value :: uint256
  block_timestamp :: uint256
  call_succeeds :: "address \<Rightarrow> uint256 \<Rightarrow> bool"

type_synonym outcome = "error + (wills \<times> effect list)"

text \<open>
  A function that is not declared \<open>payable\<close> starts with the check the compiler
  generates for it: a call that carries value reverts, with no data, before any
  modifier or statement of the function runs.
\<close>

definition nonpayable :: "env \<Rightarrow> error + 'a \<Rightarrow> error + 'a" where
  "nonpayable e rest = (if msg_value e = 0 then rest else Inl RevertNoData)"

subsection \<open>Internal helper functions\<close>

fun isBeneficiaryIn :: "address \<Rightarrow> Beneficiary list \<Rightarrow> bool" where
  "isBeneficiaryIn user [] = False"
| "isBeneficiaryIn user (b # bs) = (if wallet b = user then True else isBeneficiaryIn user bs)"

definition isBeneficiaryOfWill :: "wills \<Rightarrow> address \<Rightarrow> address \<Rightarrow> bool" where
  "isBeneficiaryOfWill ws user t = isBeneficiaryIn user (beneficiaries (ws t))"

fun isGuardianIn :: "address \<Rightarrow> Beneficiary list \<Rightarrow> bool" where
  "isGuardianIn user [] = False"
| "isGuardianIn user (b # bs) =
     (if wallet b = user \<and> isGuardian b then True else isGuardianIn user bs)"

definition isGuardianOfWill :: "wills \<Rightarrow> address \<Rightarrow> address \<Rightarrow> bool" where
  "isGuardianOfWill ws user t = isGuardianIn user (beneficiaries (ws t))"

fun hasGuardianIn :: "Beneficiary list \<Rightarrow> bool" where
  "hasGuardianIn [] = False"
| "hasGuardianIn (b # bs) = (if isGuardian b then True else hasGuardianIn bs)"

definition hasGuardian :: "wills \<Rightarrow> address \<Rightarrow> bool" where
  "hasGuardian ws t = hasGuardianIn (beneficiaries (ws t))"

fun totalSharesFrom :: "uint256 \<Rightarrow> Beneficiary list \<Rightarrow> error + uint256" where
  "totalSharesFrom tot [] = Inr tot"
| "totalSharesFrom tot (b # bs) =
     (case checked_add tot (share b) of
        Inl x \<Rightarrow> Inl x
      | Inr tot' \<Rightarrow> totalSharesFrom tot' bs)"

definition getTotalShares :: "wills \<Rightarrow> address \<Rightarrow> error + uint256" where
  "getTotalShares ws t = totalSharesFrom 0 (beneficiaries (ws t))"

fun beneficiaryIndexFrom :: "nat \<Rightarrow> address \<Rightarrow> Beneficiary list \<Rightarrow> error + nat" where
  "beneficiaryIndexFrom i a [] = Inl (Revert ''Beneficiary not found'')"
| "beneficiaryIndexFrom i a (b # bs) =
     (if wallet b = a then Inr i else beneficiaryIndexFrom (Suc i) a bs)"

definition getBeneficiaryIndex :: "wills \<Rightarrow> address \<Rightarrow> address \<Rightarrow> error + nat" where
  "getBeneficiaryIndex ws a t = beneficiaryIndexFrom 0 a (beneficiaries (ws t))"

subsection \<open>Will lifecycle\<close>

definition createWill :: "env \<Rightarrow> uint256 \<Rightarrow> uint256 \<Rightarrow> wills \<Rightarrow> outcome" where
  "createWill e cip dp ws =
     nonpayable e
    (require (testator (ws (msg_sender e)) = 0) ''Will already exists''
    (require (cip > 0) ''Check-in period must be positive''
    (require (dp > 0) ''Dispute period must be positive''
    (Inr (ws(msg_sender e := (ws (msg_sender e))
            \<lparr>testator := msg_sender e, checkInPeriod := cip, disputePeriod := dp,
             lastCheckIn := block_timestamp e, executed := False\<rparr>),
          [Emit (WillCreated (msg_sender e) cip dp)])))))"

text \<open>
  The payout loop of \<open>executeWill\<close>: \<open>amount = (totalFunds * share) / 100\<close>, sent when
  positive; a refused transfer reverts the whole call.
\<close>

fun distribute :: "env \<Rightarrow> uint256 \<Rightarrow> Beneficiary list \<Rightarrow> error + effect list" where
  "distribute e totalFunds [] = Inr []"
| "distribute e totalFunds (b # bs) =
     (case checked_mul totalFunds (share b) of
        Inl x \<Rightarrow> Inl x
      | Inr p \<Rightarrow>
          (let amount = p div 100 in
           if amount > 0 then
             require (call_succeeds e (wallet b) amount) ''Transfer failed''
               (case distribute e totalFunds bs of
                  Inl x \<Rightarrow> Inl x
                | Inr effs \<Rightarrow> Inr (Transfer (wallet b) amount # effs))
           else distribute e totalFunds bs))"

definition executeWill :: "env \<Rightarrow> address \<Rightarrow> wills \<Rightarrow> outcome" where
  "executeWill e t ws =
     nonpayable e
    (require (testator (ws t) \<noteq> 0) ''Will does not exist''
    (require (\<not> executed (ws t)) ''Will already executed''
    (let will = ws t; currentTime = block_timestamp e in
     case checked_add (lastCheckIn will) (checkInPeriod will) of
       Inl x \<Rightarrow> Inl x
     | Inr deadlineTime \<Rightarrow>
     (case checked_add deadlineTime (disputePeriod will) of
       Inl x \<Rightarrow> Inl x
     | Inr disputeEndTime \<Rightarrow>
       require (currentTime > deadlineTime) ''Check-in period has not expired''
      ((if currentTime \<le> disputeEndTime
        then require (isGuardianOfWill ws (msg_sender e) t)
               ''Only guardian can execute during dispute period''
        else require (isBeneficiaryOfWill ws (msg_sender e) t)
               ''Only beneficiaries can execute will'')
      (case checked_add (lockedVault will) (flexibleVault will) of
         Inl x \<Rightarrow> Inl x
       | Inr totalFunds \<Rightarrow>
         require (totalFunds > 0) ''No funds to distribute''
        (case getTotalShares ws t of
           Inl x \<Rightarrow> Inl x
         | Inr totalShares \<Rightarrow>
           require (totalShares = 100) ''Total beneficiary shares must equal 100%''
          (case distribute e totalFunds (beneficiaries will) of
             Inl x \<Rightarrow> Inl x
           | Inr effs \<Rightarrow>
               Inr (ws(t := will\<lparr>executed := True, lockedVault := 0, flexibleVault := 0\<rparr>),
                    effs @ [Emit (WillExecuted t totalFunds)])))))))))"

subsection \<open>Beneficiary management\<close>

definition addBeneficiary :: "env \<Rightarrow> address \<Rightarrow> uint256 \<Rightarrow> bool \<Rightarrow> wills \<Rightarrow> outcome" where
  "addBeneficiary e b sh g ws =
     nonpayable e
    (require (testator (ws (msg_sender e)) \<noteq> 0) ''Will does not exist''
    (require (\<not> executed (ws (msg_sender e))) ''Will already executed''
    (require (sh > 0 \<and> sh \<le> 100) ''Share must be between 1-100''
    (require (b \<noteq> 0) ''Invalid beneficiary address''
    (require (b \<noteq> msg_sender e) ''Cannot add self as beneficiary''
    (require (\<not> isBeneficiaryOfWill ws b (msg_sender e)) ''Beneficiary already exists''
    ((if g then require (\<not> hasGuardian ws (msg_sender e)) ''Guardian already exists''
      else (\<lambda>rest. rest))
    (case getTotalShares ws (msg_sender e) of
       Inl x \<Rightarrow> Inl x
     | Inr currentTotal \<Rightarrow>
      (case checked_add currentTotal sh of
         Inl x \<Rightarrow> Inl x
       | Inr s \<Rightarrow>
         require (s \<le> 100) ''Total shares cannot exceed 100%''
        (Inr (ws(msg_sender e := (ws (msg_sender e))
                \<lparr>beneficiaries := beneficiaries (ws (msg_sender e)) @
                   [\<lparr>wallet = b, share = sh, isGuardian = g\<rparr>]\<rparr>),
              [Emit (BeneficiaryAdded (msg_sender e) b sh g)])))))))))))"

definition updateBeneficiary :: "env \<Rightarrow> address \<Rightarrow> uint256 \<Rightarrow> bool \<Rightarrow> wills \<Rightarrow> outcome" where
  "updateBeneficiary e b newShare g ws =
     nonpayable e
    (require (testator (ws (msg_sender e)) \<noteq> 0) ''Will does not exist''
    (require (\<not> executed (ws (msg_sender e))) ''Will already executed''
    (require (newShare > 0 \<and> newShare \<le> 100) ''Share must be between 1-100''
    (require (isBeneficiaryOfWill ws b (msg_sender e)) ''Beneficiary not found''
    (let will = ws (msg_sender e) in
     case getBeneficiaryIndex ws b (msg_sender e) of
       Inl x \<Rightarrow> Inl x
     | Inr beneficiaryIndex \<Rightarrow>
      (let targetBeneficiary = beneficiaries will ! beneficiaryIndex in
       (if g \<and> \<not> isGuardian targetBeneficiary
        then require (\<not> hasGuardian ws (msg_sender e)) ''Guardian already exists''
        else (\<lambda>rest. rest))
       (case getTotalShares ws (msg_sender e) of
          Inl x \<Rightarrow> Inl x
        | Inr currentTotal \<Rightarrow>
         (case checked_sub currentTotal (share targetBeneficiary) of
            Inl x \<Rightarrow> Inl x
          | Inr d \<Rightarrow>
           (case checked_add d newShare of
              Inl x \<Rightarrow> Inl x
            | Inr adjustedTotal \<Rightarrow>
              require (adjustedTotal \<le> 100) ''Total shares cannot exceed 100%''
             (Inr (ws(msg_sender e := will
                     \<lparr>beneficiaries := (beneficiaries will)
                        [beneficiaryIndex := targetBeneficiary
                           \<lparr>share := newShare, isGuardian := g\<rparr>]\<rparr>),
                   [Emit (BeneficiaryUpdated (msg_sender e) b newShare g)])))))))))))"

text \<open>
  \<open>removeBeneficiary\<close> overwrites the entry with the last one and pops the array.
  \<open>length - 1\<close> is a checked subtraction; the index found by \<open>getBeneficiaryIndex\<close>
  is within the array.
\<close>

definition removeBeneficiary :: "env \<Rightarrow> address \<Rightarrow> wills \<Rightarrow> outcome" where
  "removeBeneficiary e b ws =
     nonpayable e
    (require (testator (ws (msg_sender e)) \<noteq> 0) ''Will does not exist''
    (require (\<not> executed (ws (msg_sender e))) ''Will already executed''
    (require (isBeneficiaryOfWill ws b (msg_sender e)) ''Beneficiary not found''
    (let will = ws (msg_sender e) in
     case getBeneficiaryIndex ws b (msg_sender e) of
       Inl x \<Rightarrow> Inl x
     | Inr beneficiaryIndex \<Rightarrow>
      (case checked_sub (length (beneficiaries will)) 1 of
         Inl x \<Rightarrow> Inl x
       | Inr lastIndex \<Rightarrow>
           Inr (ws(msg_sender e := will
                  \<lparr>beneficiaries :=
                     butlast ((beneficiaries will)
                       [beneficiaryIndex := beneficiaries will ! lastIndex])\<rparr>),
                [Emit (BeneficiaryRemoved (msg_sender e) b)]))))))"

subsection \<open>Vault management and the dead man's switch\<close>

definition depositLocked :: "env \<Rightarrow> wills \<Rightarrow> outcome" where
  "depositLocked e ws =
     require (testator (ws (msg_sender e)) \<noteq> 0) ''Will does not exist''
    (require (\<not> executed (ws (msg_sender e))) ''Will already executed''
    (require (msg_value e > 0) ''Must deposit positive amount''
    (case checked_add (lockedVault (ws (msg_sender e))) (msg_value e) of
       Inl x \<Rightarrow> Inl x
     | Inr v \<Rightarrow>
         Inr (ws(msg_sender e := (ws (msg_sender e))\<lparr>lockedVault := v\<rparr>),
              [Emit (DepositLocked (msg_sender e) (msg_value e))]))))"

definition depositFlexible :: "env \<Rightarrow> wills \<Rightarrow> outcome" where
  "depositFlexible e ws =
     require (testator (ws (msg_sender e)) \<noteq> 0) ''Will does not exist''
    (require (\<not> executed (ws (msg_sender e))) ''Will already executed''
    (require (msg_value e > 0) ''Must deposit positive amount''
    (case checked_add (flexibleVault (ws (msg_sender e))) (msg_value e) of
       Inl x \<Rightarrow> Inl x
     | Inr v \<Rightarrow>
         Inr (ws(msg_sender e := (ws (msg_sender e))\<lparr>flexibleVault := v\<rparr>),
              [Emit (DepositFlexible (msg_sender e) (msg_value e))]))))"

definition withdrawFlexible :: "env \<Rightarrow> uint256 \<Rightarrow> wills \<Rightarrow> outcome" where
  "withdrawFlexible e amount ws =
     nonpayable e
    (require (testator (ws (msg_sender e)) \<noteq> 0) ''Will does not exist''
    (require (\<not> executed (ws (msg_sender e))) ''Will already executed''
    (require (amount > 0) ''Must withdraw positive amount''
    (require (flexibleVault (ws (msg_sender e)) \<ge> amount) ''Insufficient flexible vault balance''
    (case checked_sub (flexibleVault (ws (msg_sender e))) amount of
       Inl x \<Rightarrow> Inl x
     | Inr v \<Rightarrow>
         require (call_succeeds e (msg_sender e) amount) ''Withdrawal failed''
        (Inr (ws(msg_sender e := (ws (msg_sender e))\<lparr>flexibleVault := v\<rparr>),
              [Transfer (msg_sender e) amount,
               Emit (WithdrawFlexible (msg_sender e) amount)])))))))"

definition checkIn :: "env \<Rightarrow> wills \<Rightarrow> outcome" where
  "checkIn e ws =
     nonpayable e
    (require (testator (ws (msg_sender e)) \<noteq> 0) ''Will does not exist''
    (require (\<not> executed (ws (msg_sender e))) ''Will already executed''
    (Inr (ws(msg_sender e := (ws (msg_sender e))\<lparr>lastCheckIn := block_timestamp e\<rparr>),
          [Emit (CheckIn (msg_sender e) (block_timestamp e))]))))"

subsection \<open>Transactions\<close>

text \<open>
  The external functions of the contract as one type of calls. A call that reverts
  leaves the storage as it was; a call that returns commits its writes.
\<close>

datatype call =
    CreateWill uint256 uint256
  | ExecuteWill address
  | AddBeneficiary address uint256 bool
  | UpdateBeneficiary address uint256 bool
  | RemoveBeneficiary address
  | DepositLockedCall
  | DepositFlexibleCall
  | WithdrawFlexibleCall uint256
  | CheckInCall

fun dispatch :: "env \<Rightarrow> call \<Rightarrow> wills \<Rightarrow> outcome" where
  "dispatch e (CreateWill cip dp) ws = createWill e cip dp ws"
| "dispatch e (ExecuteWill t) ws = executeWill e t ws"
| "dispatch e (AddBeneficiary b sh g) ws = addBeneficiary e b sh g ws"
| "dispatch e (UpdateBeneficiary b sh g) ws = updateBeneficiary e b sh g ws"
| "dispatch e (RemoveBeneficiary b) ws = removeBeneficiary e b ws"
| "dispatch e DepositLockedCall ws = depositLocked e ws"
| "dispatch e DepositFlexibleCall ws = depositFlexible e ws"
| "dispatch e (WithdrawFlexibleCall amount) ws = withdrawFlexible e amount ws"
| "dispatch e CheckInCall ws = checkIn e ws"

definition transact :: "env \<Rightarrow> call \<Rightarrow> wills \<Rightarrow> wills" where
  "transact e c ws = (case dispatch e c ws of Inl x \<Rightarrow> ws | Inr (ws', effs) \<Rightarrow> ws')"

fun run :: "(env \<times> call) list \<Rightarrow> wills \<Rightarrow> wills" where
  "run [] ws = ws"
| "run ((e, c) # txs) ws = run txs (transact e c ws)"

inductive reachable :: "wills \<Rightarrow> bool" where
  reachable_initial: "reachable initial_wills"
| reachable_step: "reachable ws \<Longrightarrow> dispatch e c ws = Inr (ws', effs) \<Longrightarrow> reachable ws'"

section \<open>Re-entrant calls\<close>

text \<open>
  \<open>addr.call{value: amount}("")\<close> hands control, and all remaining gas, to the recipient.
  A recipient that is a contract runs its \<open>receive\<close> function, which may call the will
  manager again before it returns. This section models the two functions that send
  value, \<open>executeWill\<close> and \<open>withdrawFlexible\<close>, with such recipients.

  The state is the storage together with the ether the contract holds: a transfer needs
  the contract to hold the amount. The code of an account says what its \<open>receive\<close>
  function does when it is paid \<open>amount\<close> while \<open>depth\<close> calls of the manager are
  nested inside the call that pays it (0 for a payment made by the call of the
  transaction itself): the calls it makes to the manager, each with the value sent
  along, and whether it then returns normally or reverts. A call it makes that fails
  leaves no trace and the account goes on. An externally owned account, and a contract
  that merely accepts value, is \<open>plain_account\<close>.
\<close>

record chain =
  storage :: wills
  funds :: uint256

type_synonym receive_code = "nat \<Rightarrow> uint256 \<Rightarrow> (uint256 \<times> call) list \<times> bool"

type_synonym accounts = "address \<Rightarrow> receive_code"

definition plain_account :: receive_code where
  "plain_account depth amount = ([], True)"

text \<open>The value of a call is credited to the contract when the call starts.\<close>

definition credit :: "env \<Rightarrow> chain \<Rightarrow> chain" where
  "credit e st = st\<lparr>funds := funds st + msg_value e\<rparr>"

text \<open>
  The part of \<open>executeWill\<close> before the payout loop: the non-payable check, the two
  modifiers, the phase and caller checks and the two requirements on funds and shares.
  It returns \<open>totalFunds\<close>.
\<close>

definition executeWill_checks :: "env \<Rightarrow> address \<Rightarrow> wills \<Rightarrow> error + uint256" where
  "executeWill_checks e t ws =
     nonpayable e
    (require (testator (ws t) \<noteq> 0) ''Will does not exist''
    (require (\<not> executed (ws t)) ''Will already executed''
    (let will = ws t; currentTime = block_timestamp e in
     case checked_add (lastCheckIn will) (checkInPeriod will) of
       Inl x \<Rightarrow> Inl x
     | Inr deadlineTime \<Rightarrow>
     (case checked_add deadlineTime (disputePeriod will) of
       Inl x \<Rightarrow> Inl x
     | Inr disputeEndTime \<Rightarrow>
       require (currentTime > deadlineTime) ''Check-in period has not expired''
      ((if currentTime \<le> disputeEndTime
        then require (isGuardianOfWill ws (msg_sender e) t)
               ''Only guardian can execute during dispute period''
        else require (isBeneficiaryOfWill ws (msg_sender e) t)
               ''Only beneficiaries can execute will'')
      (case checked_add (lockedVault will) (flexibleVault will) of
         Inl x \<Rightarrow> Inl x
       | Inr totalFunds \<Rightarrow>
         require (totalFunds > 0) ''No funds to distribute''
        (case getTotalShares ws t of
           Inl x \<Rightarrow> Inl x
         | Inr totalShares \<Rightarrow>
           require (totalShares = 100) ''Total beneficiary shares must equal 100%''
          (Inr totalFunds))))))))"

text \<open>
  The part of \<open>withdrawFlexible\<close> before its transfer: the non-payable check, the two
  modifiers, the two requirements, and the write that lowers the flexible vault. It
  returns the storage after that write.
\<close>

definition withdrawFlexible_checks :: "env \<Rightarrow> uint256 \<Rightarrow> wills \<Rightarrow> error + wills" where
  "withdrawFlexible_checks e amount ws =
     nonpayable e
    (require (testator (ws (msg_sender e)) \<noteq> 0) ''Will does not exist''
    (require (\<not> executed (ws (msg_sender e))) ''Will already executed''
    (require (amount > 0) ''Must withdraw positive amount''
    (require (flexibleVault (ws (msg_sender e)) \<ge> amount) ''Insufficient flexible vault balance''
    (case checked_sub (flexibleVault (ws (msg_sender e))) amount of
       Inl x \<Rightarrow> Inl x
     | Inr v \<Rightarrow> Inr (ws(msg_sender e := (ws (msg_sender e))\<lparr>flexibleVault := v\<rparr>)))))))"

text \<open>
  The functions below are written in the order of their dependencies; \<open>nested\<close> is the
  way a call of the manager made by a recipient runs, which is \<open>external_call\<close> itself.
  \<open>external_call\<close> and \<open>payout_loop\<close> take a bound on the nesting of calls and on the
  turns of the loop, as a real execution is bounded by its gas; a result other than
  \<open>OutOfFuel\<close> does not depend on it.
  \<^item> \<open>receive_calls\<close> runs the calls a recipient makes, in order.
  \<^item> \<open>send_value\<close> is \<open>addr.call{value: amount}("")\<close>: it fails (\<open>None\<close>) when the contract
    does not hold the amount or the recipient reverts, and then leaves the state as it
    was; otherwise the recipient's calls have run.
  \<^item> \<open>payout_loop\<close> is the \<open>for\<close> loop of \<open>executeWill\<close> from index \<open>i\<close>; it reads
    \<open>will.beneficiaries.length\<close> and \<open>will.beneficiaries[i]\<close> from storage at every turn.
  \<^item> \<open>external_call\<close> is a call of an external function of the contract, at nesting
    depth \<open>depth\<close>. \<open>executeWill\<close> runs its checks, then the loop, and only then writes
    \<open>executed\<close> and the two vaults, to the will as the storage holds it at that moment
    (\<open>will\<close> is a storage pointer). \<open>withdrawFlexible\<close> lowers the flexible vault before
    it sends. The other functions send no value and are those of the previous section.
\<close>

type_synonym result = "error + chain \<times> effect list"

fun receive_calls ::
  "(nat \<Rightarrow> env \<Rightarrow> call \<Rightarrow> chain \<Rightarrow> result) \<Rightarrow> nat \<Rightarrow> env \<Rightarrow> address \<Rightarrow>
     (uint256 \<times> call) list \<Rightarrow> chain \<Rightarrow> result" where
  "receive_calls nested depth e sender [] st = Inr (st, [])"
| "receive_calls nested depth e sender ((v, c) # calls) st =
     (case nested depth (e\<lparr>msg_sender := sender, msg_value := v\<rparr>) c st of
        Inl x \<Rightarrow>
          if x = OutOfFuel then Inl OutOfFuel
          else receive_calls nested depth e sender calls st
      | Inr (st1, effs) \<Rightarrow>
          (case receive_calls nested depth e sender calls st1 of
             Inl x \<Rightarrow> Inl x
           | Inr (st2, effs2) \<Rightarrow> Inr (st2, effs @ effs2)))"

definition send_value ::
  "(nat \<Rightarrow> env \<Rightarrow> call \<Rightarrow> chain \<Rightarrow> result) \<Rightarrow> accounts \<Rightarrow> nat \<Rightarrow> env \<Rightarrow> address \<Rightarrow>
     uint256 \<Rightarrow> chain \<Rightarrow> error + (chain \<times> effect list) option" where
  "send_value nested A depth e recipient amount st =
     (if funds st < amount then Inr None
      else case A recipient depth amount of
        (calls, accepts) \<Rightarrow>
          (case receive_calls nested (Suc depth) e recipient calls
                  (st\<lparr>funds := funds st - amount\<rparr>) of
             Inl x \<Rightarrow> Inl x
           | Inr (st1, effs) \<Rightarrow>
               if accepts then Inr (Some (st1, Transfer recipient amount # effs))
               else Inr None))"

primrec payout_loop ::
  "nat \<Rightarrow> (address \<Rightarrow> uint256 \<Rightarrow> chain \<Rightarrow> error + (chain \<times> effect list) option) \<Rightarrow>
     address \<Rightarrow> uint256 \<Rightarrow> nat \<Rightarrow> chain \<Rightarrow> result" where
  "payout_loop 0 send t totalFunds i st = Inl OutOfFuel"
| "payout_loop (Suc n) send t totalFunds i st =
     (if i < length (beneficiaries (storage st t)) then
        (case checked_mul totalFunds (share (beneficiaries (storage st t) ! i)) of
           Inl x \<Rightarrow> Inl x
         | Inr p \<Rightarrow>
             if p div 100 > 0 then
               (case send (wallet (beneficiaries (storage st t) ! i)) (p div 100) st of
                  Inl x \<Rightarrow> Inl x
                | Inr None \<Rightarrow> Inl (Revert ''Transfer failed'')
                | Inr (Some (st1, effs)) \<Rightarrow>
                    (case payout_loop n send t totalFunds (i + 1) st1 of
                       Inl x \<Rightarrow> Inl x
                     | Inr (st2, effs2) \<Rightarrow> Inr (st2, effs @ effs2)))
             else payout_loop n send t totalFunds (i + 1) st)
      else Inr (st, []))"

primrec external_call :: "nat \<Rightarrow> accounts \<Rightarrow> nat \<Rightarrow> env \<Rightarrow> call \<Rightarrow> chain \<Rightarrow> result" where
  "external_call 0 A depth e c st = Inl OutOfFuel"
| "external_call (Suc n) A depth e c st =
     (case c of
        ExecuteWill t \<Rightarrow>
          (case executeWill_checks e t (storage (credit e st)) of
             Inl x \<Rightarrow> Inl x
           | Inr totalFunds \<Rightarrow>
              (case payout_loop n (send_value (external_call n A) A depth e) t totalFunds 0
                      (credit e st) of
                 Inl x \<Rightarrow> Inl x
               | Inr (st1, effs) \<Rightarrow>
                   Inr (st1\<lparr>storage := (storage st1)
                              (t := (storage st1 t)
                                 \<lparr>executed := True, lockedVault := 0, flexibleVault := 0\<rparr>)\<rparr>,
                        effs @ [Emit (WillExecuted t totalFunds)])))
      | WithdrawFlexibleCall amount \<Rightarrow>
          (case withdrawFlexible_checks e amount (storage (credit e st)) of
             Inl x \<Rightarrow> Inl x
           | Inr ws \<Rightarrow>
              (case send_value (external_call n A) A depth e (msg_sender e) amount
                      ((credit e st)\<lparr>storage := ws\<rparr>) of
                 Inl x \<Rightarrow> Inl x
               | Inr None \<Rightarrow> Inl (Revert ''Withdrawal failed'')
               | Inr (Some (st1, effs)) \<Rightarrow>
                   Inr (st1, effs @ [Emit (WithdrawFlexible (msg_sender e) amount)])))
      | _ \<Rightarrow>
          (case dispatch e c (storage (credit e st)) of
             Inl x \<Rightarrow> Inl x
           | Inr (ws, effs) \<Rightarrow> Inr ((credit e st)\<lparr>storage := ws\<rparr>, effs)))"

text \<open>A transaction: the call at depth 0; a call that fails leaves the state as it was.\<close>

definition transaction :: "nat \<Rightarrow> accounts \<Rightarrow> env \<Rightarrow> call \<Rightarrow> chain \<Rightarrow> chain" where
  "transaction n A e c st =
     (case external_call n A 0 e c st of Inl x \<Rightarrow> st | Inr (st1, effs) \<Rightarrow> st1)"

text \<open>
  The sum of the shares of a will, the number of its entries flagged as guardian, and
  the invariant of the share ledger.
\<close>

definition totalShares :: "Will \<Rightarrow> nat" where
  "totalShares w = sum_list (map share (beneficiaries w))"

definition guardianCount :: "Will \<Rightarrow> nat" where
  "guardianCount w = length (filter isGuardian (beneficiaries w))"

definition will_inv :: "Will \<Rightarrow> bool" where
  "will_inv w \<longleftrightarrow> totalShares w \<le> 100 \<and> guardianCount w \<le> 1 \<and>
     distinct (map wallet (beneficiaries w))"

subsection \<open>Notions used to state the claims about the contract\<close>

text \<open>
  The deadline and the end of the dispute period of a will as the specification defines
  them, in unbounded arithmetic; the funds of a will and what a beneficiary is paid at
  execution.
\<close>

definition deadline :: "Will \<Rightarrow> nat" where
  "deadline w = lastCheckIn w + checkInPeriod w"

definition disputeEnd :: "Will \<Rightarrow> nat" where
  "disputeEnd w = deadline w + disputePeriod w"

definition totalFunds :: "Will \<Rightarrow> nat" where
  "totalFunds w = lockedVault w + flexibleVault w"

definition payout :: "Will \<Rightarrow> Beneficiary \<Rightarrow> nat" where
  "payout w b = totalFunds w * share b div 100"

text \<open>
  The preconditions of a payout other than time and caller: funds, shares summing to
  exactly 100, the multiplication by a share in range, and every transfer of a positive
  amount accepted by its recipient.
\<close>

definition payable :: "env \<Rightarrow> Will \<Rightarrow> bool" where
  "payable e w \<longleftrightarrow> totalFunds w > 0 \<and> totalShares w = 100 \<and>
     totalFunds w * 100 \<le> UINT256_MAX \<and>
     list_all (\<lambda>b. payout w b = 0 \<or> call_succeeds e (wallet b) (payout w b)) (beneficiaries w)"

text \<open>The value transfers of a call, and what one address receives from them.\<close>

fun transfers :: "effect list \<Rightarrow> (address \<times> uint256) list" where
  "transfers [] = []"
| "transfers (Transfer a v # effs) = (a, v) # transfers effs"
| "transfers (Emit l # effs) = transfers effs"

definition received :: "address \<Rightarrow> effect list \<Rightarrow> nat" where
  "received a effs = sum_list (map snd (filter (\<lambda>p. fst p = a) (transfers effs)))"

subsection \<open>The end-to-end scenario of the specification\<close>

text \<open>
  Testator \<open>10\<close> creates a will with \<open>checkInPeriod = 2592000\<close> and
  \<open>disputePeriod = 604800\<close> at time \<open>1700000000\<close>, adds beneficiary B = \<open>11\<close> with
  share 60 and guardian G = \<open>12\<close> with share 40, deposits 10 locked and 5 flexible.
  Every recipient accepts transfers. \<open>scenario_will\<close> is the will that results.
\<close>

definition scenario_env :: "address \<Rightarrow> uint256 \<Rightarrow> uint256 \<Rightarrow> env" where
  "scenario_env s v ts =
     \<lparr>msg_sender = s, msg_value = v, block_timestamp = ts, call_succeeds = (\<lambda>a x. True)\<rparr>"

definition scenario_txs :: "(env \<times> call) list" where
  "scenario_txs =
     [(scenario_env 10 0 1700000000, CreateWill 2592000 604800),
      (scenario_env 10 0 1700000100, AddBeneficiary 11 60 False),
      (scenario_env 10 0 1700000200, AddBeneficiary 12 40 True),
      (scenario_env 10 10 1700000300, DepositLockedCall),
      (scenario_env 10 5 1700000400, DepositFlexibleCall)]"

definition scenario_wills :: wills where
  "scenario_wills = run scenario_txs initial_wills"

definition scenario_will :: Will where
  "scenario_will =
     \<lparr>testator = 10,
      beneficiaries = [\<lparr>wallet = 11, share = 60, isGuardian = False\<rparr>,
                       \<lparr>wallet = 12, share = 40, isGuardian = True\<rparr>],
      lockedVault = 10, flexibleVault = 5, lastCheckIn = 1700000000,
      checkInPeriod = 2592000, disputePeriod = 604800, executed = False\<rparr>"

text \<open>The seven operations of a testator on a will, as calls.\<close>

definition mutators :: "address \<Rightarrow> uint256 \<Rightarrow> bool \<Rightarrow> uint256 \<Rightarrow> call list" where
  "mutators b sh g amount =
     [DepositLockedCall, DepositFlexibleCall, WithdrawFlexibleCall amount,
      AddBeneficiary b sh g, UpdateBeneficiary b sh g, RemoveBeneficiary b, CheckInCall]"

text \<open>The scenario after beneficiary B has executed the will in the open phase.\<close>

definition scenario_executed :: wills where
  "scenario_executed =
     transact (scenario_env 11 0 1703196801) (ExecuteWill 10) scenario_wills"

text \<open>
  The scenario of the specification on a contract that also holds the funds of a second
  will: testator \<open>20\<close> creates a will and deposits 15 locked, so that the contract holds
  30. \<open>funded_chain\<close> is the state before the execution of the will of testator \<open>10\<close>.
\<close>

definition other_will :: Will where
  "other_will =
     \<lparr>testator = 20, beneficiaries = [], lockedVault = 15, flexibleVault = 0,
      lastCheckIn = 1700000450, checkInPeriod = 2592000, disputePeriod = 604800,
      executed = False\<rparr>"

definition funded_txs :: "(env \<times> call) list" where
  "funded_txs = scenario_txs @
     [(scenario_env 20 0 1700000450, CreateWill 2592000 604800),
      (scenario_env 20 15 1700000460, DepositLockedCall)]"

definition funded_chain :: chain where
  "funded_chain =
     fold (\<lambda>(e, c). transaction 2 (\<lambda>a. plain_account) e c) funded_txs
       \<lparr>storage = initial_wills, funds = 0\<rparr>"

text \<open>
  Beneficiary B = \<open>11\<close> as a contract whose \<open>receive\<close> function calls \<open>executeWill(10)\<close>
  when it is paid by the call of the transaction itself, and accepts the value; every
  other account is plain.
\<close>

definition reentering_B :: accounts where
  "reentering_B a depth amount =
     (if a = 11 \<and> depth = 0 then ([(0, ExecuteWill 10)], True) else ([], True))"

subsection \<open>Notions used to state the claims about the projection and the API\<close>

text \<open>
  Two classes of events: those that go through \<open>updateVaultBalance\<close>, and those whose
  insert draws a fresh AUTOINCREMENT id.
\<close>

fun is_vault_event :: "event \<Rightarrow> bool" where
  "is_vault_event (DepositLockedEv t a) = True"
| "is_vault_event (DepositFlexibleEv t a) = True"
| "is_vault_event (WithdrawFlexibleEv t a) = True"
| "is_vault_event ev = False"

fun assigns_row_id :: "event \<Rightarrow> bool" where
  "assigns_row_id (BeneficiaryAddedEv t b s g) = True"
| "assigns_row_id (DocumentAddedEv t h f d ts) = True"
| "assigns_row_id ev = False"

text \<open>The replica without its row ids and id counters.\<close>

definition forget_ids :: "database \<Rightarrow> database" where
  "forget_ids db =
     db\<lparr>Beneficiaries := map (\<lambda>b. b\<lparr>b_id := 0\<rparr>) (Beneficiaries db),
        Documents := map (\<lambda>d. d\<lparr>d_id := 0\<rparr>) (Documents db),
        seq_Beneficiaries := 0, seq_Documents := 0\<rparr>"

text \<open>
  The wills whose \<open>lastCheckIn\<close> was last written by \<open>createWill\<close>, which stores its
  clock reading there, rather than by \<open>updateLastCheckIn\<close>, which stores the timestamp of
  the \<open>CheckIn\<close> event: \<open>clock_stamped S evs\<close> is that set after the events \<open>evs\<close> when
  it was \<open>S\<close> before them.
\<close>

fun clock_stamped :: "string set \<Rightarrow> event list \<Rightarrow> string set" where
  "clock_stamped S [] = S"
| "clock_stamped S (WillCreatedEv t c d # evs) = clock_stamped (insert (toLowerCase t) S) evs"
| "clock_stamped S (CheckInEv t ts # evs) = clock_stamped (S - {toLowerCase t}) evs"
| "clock_stamped S (ev # evs) = clock_stamped S evs"

text \<open>
  The replica without the columns \<open>createdAt\<close> and \<open>updatedAt\<close> of \<open>Wills\<close>, which hold
  the clock reading of the first and of the last write of the row, and without
  \<open>lastCheckIn\<close> for the wills in \<open>S\<close>.
\<close>

definition erase_stamps_row :: "string set \<Rightarrow> will_row \<Rightarrow> will_row" where
  "erase_stamps_row S w =
     w\<lparr>w_createdAt := 0, w_updatedAt := 0,
       w_lastCheckIn := (if w_willId w \<in> S then 0 else w_lastCheckIn w)\<rparr>"

definition erase_stamps :: "string set \<Rightarrow> database \<Rightarrow> database" where
  "erase_stamps S db = db\<lparr>Wills := map (erase_stamps_row S) (Wills db)\<rparr>"

text \<open>
  A live run, step by step. The listener of every event but \<open>DocumentAdded\<close> makes its
  database call before it returns. The listener of \<open>DocumentAdded\<close> only starts the
  block lookup \<open>event.getBlock()\<close>; the document is written by the continuation of the
  lookup (\<open>then\<close> when it succeeds, \<open>catch\<close> when it fails), which runs after the
  listener has returned, possibly after listeners of later events. \<open>Handled now ev\<close> is
  the listener invoked with \<open>ev\<close>, \<open>Resumed now ev\<close> the continuation of the lookup
  started for \<open>ev\<close>, each at the clock reading \<open>now\<close>. \<open>listener\<close> is the database
  call of an event, hence for \<open>DocumentAdded\<close> the call its continuation makes;
  \<open>liveEvents\<close> applies these calls in the order given.
\<close>

datatype live_step = Handled nat event | Resumed nat event

fun run_step :: "live_step \<Rightarrow> database \<Rightarrow> database" where
  "run_step (Handled now (DocumentAddedEv t h f d r)) db = db"
| "run_step (Handled now ev) db = listener now ev db"
| "run_step (Resumed now (DocumentAddedEv t h f d r)) db =
     listener now (DocumentAddedEv t h f d r) db"
| "run_step (Resumed now ev) db = db"

fun live_run :: "live_step list \<Rightarrow> database \<Rightarrow> database" where
  "live_run [] db = db"
| "live_run (s # steps) db = live_run steps (run_step s db)"

text \<open>The database calls of a live run, in the order in which it makes them.\<close>

fun db_calls :: "live_step list \<Rightarrow> (nat \<times> event) list" where
  "db_calls [] = []"
| "db_calls (Handled now (DocumentAddedEv t h f d r) # steps) = db_calls steps"
| "db_calls (Handled now ev # steps) = (now, ev) # db_calls steps"
| "db_calls (Resumed now (DocumentAddedEv t h f d r) # steps) =
     (now, DocumentAddedEv t h f d r) # db_calls steps"
| "db_calls (Resumed now ev # steps) = db_calls steps"

text \<open>
  The live run in which every block lookup completes before the next event is handled.
\<close>

fun prompt :: "(nat \<times> event) list \<Rightarrow> live_step list" where
  "prompt [] = []"
| "prompt ((now, DocumentAddedEv t h f d r) # evs) =
     Handled now (DocumentAddedEv t h f d r) # Resumed now (DocumentAddedEv t h f d r) #
       prompt evs"
| "prompt ((now, ev) # evs) = Handled now ev # prompt evs"

text \<open>Events whose block timestamp, where they need one, was found.\<close>

fun block_lookup_ok :: "event \<Rightarrow> bool" where
  "block_lookup_ok (DocumentAddedEv t h f d None) = False"
| "block_lookup_ok ev = True"

text \<open>
  A testator address as the contract interface prints it (mixed case) and its lower-case
  form, the will id; a short event log; and the replica after applying that log once to
  the fresh replica.
\<close>

definition alice :: string where
  "alice = ''0xAAaaaaaaaaaaaaaaaaaaaaaaaaaaaaaaaaaaaaaa''"

definition bob :: string where
  "bob = ''0xBbbbbbbbbbbbbbbbbbbbbbbbbbbbbbbbbbbbbbbb''"

definition alice_id :: string where
  "alice_id = ''0xaaaaaaaaaaaaaaaaaaaaaaaaaaaaaaaaaaaaaaaa''"

definition replay_events :: "(nat \<times> event) list" where
  "replay_events =
     [(1700000000, WillCreatedEv alice 2592000 604800),
      (1700000300, DepositLockedEv alice 5)]"

text \<open>
  A log with a check-in: the will is created, the testator checks in at block time
  \<open>1700000450\<close>, and deposits. \<open>early_run\<close> and \<open>late_run\<close> apply it at different
  clock readings.
\<close>

definition checkin_log :: "event list" where
  "checkin_log =
     [WillCreatedEv alice 2592000 604800, CheckInEv alice 1700000450, DepositLockedEv alice 5]"

definition early_run :: "(nat \<times> event) list" where
  "early_run = zip [1700000000, 1700000500, 1700000600] checkin_log"

definition late_run :: "(nat \<times> event) list" where
  "late_run = zip [1800000000, 1800000500, 1800000600] checkin_log"

definition after_once :: database where
  "after_once =
     \<lparr>Wills = [\<lparr>w_willId = alice_id, w_testator = alice_id, w_guardian = None,
                w_checkInPeriod = 2592000, w_disputePeriod = 604800,
                w_lastCheckIn = 1700000000, w_executed = 0, w_createdAt = 1700000000,
                w_updatedAt = 1700000000\<rparr>],
      Beneficiaries = [],
      Vaults = [\<lparr>v_willId = alice_id, v_vaultType = ''flexible'', v_balance = 0\<rparr>,
                \<lparr>v_willId = alice_id, v_vaultType = ''locked'', v_balance = 5\<rparr>],
      Documents = [], seq_Beneficiaries = 0, seq_Documents = 0\<rparr>"

text \<open>What a log deposits into the locked vault of one will.\<close>

fun locked_deposits :: "string \<Rightarrow> (nat \<times> event) list \<Rightarrow> int" where
  "locked_deposits w [] = 0"
| "locked_deposits w ((now, DepositLockedEv t a) # rest) =
     (if toLowerCase t = w then int a else 0) + locked_deposits w rest"
| "locked_deposits w ((now, ev) # rest) = locked_deposits w rest"

text \<open>
  Two will rows that agree up to the clock columns, the second condition recording that
  a row whose \<open>lastCheckIn\<close> comes from \<open>createWill\<close> was written by it; and two replicas
  that agree in this sense.
\<close>

definition same_row :: "string set \<Rightarrow> will_row \<Rightarrow> will_row \<Rightarrow> bool" where
  "same_row S x y \<longleftrightarrow>
     erase_stamps_row S x = erase_stamps_row S y \<and>
     (if w_willId x \<in> S then w_testator x = w_willId x else True)"

definition same_replica :: "string set \<Rightarrow> database \<Rightarrow> database \<Rightarrow> bool" where
  "same_replica S db1 db2 \<longleftrightarrow>
     list_all2 (same_row S) (Wills db1) (Wills db2) \<and>
     Beneficiaries db1 = Beneficiaries db2 \<and> Vaults db1 = Vaults db2 \<and>
     Documents db1 = Documents db2 \<and> seq_Beneficiaries db1 = seq_Beneficiaries db2 \<and>
     seq_Documents db1 = seq_Documents db2"

text \<open>The same events as \<open>replay_events\<close>, applied at later clock readings.\<close>

definition late_events :: "(nat \<times> event) list" where
  "late_events =
     [(1800000000, WillCreatedEv alice 2592000 604800),
      (1800000300, DepositLockedEv alice 5)]"

text \<open>
  A document that is added and removed again: the events, and a live run in which the
  block lookup of the first completes after the second has been handled.
\<close>

definition document_log :: "(nat \<times> event) list" where
  "document_log =
     [(1700000700, DocumentAddedEv alice ''QmYwAPJzv5CZsnA625s3Xf2nemtYgPpHdWEz79ojWnPbdG''
         ''will.pdf'' ''will'' (Some 1700000650)),
      (1700000800, DocumentRemovedEv alice ''QmYwAPJzv5CZsnA625s3Xf2nemtYgPpHdWEz79ojWnPbdG'')]"

definition deferred_run :: "live_step list" where
  "deferred_run =
     [Handled 1700000700 (DocumentAddedEv alice
         ''QmYwAPJzv5CZsnA625s3Xf2nemtYgPpHdWEz79ojWnPbdG'' ''will.pdf'' ''will''
         (Some 1700000650)),
      Handled 1700000800 (DocumentRemovedEv alice
         ''QmYwAPJzv5CZsnA625s3Xf2nemtYgPpHdWEz79ojWnPbdG''),
      Resumed 1700000900 (DocumentAddedEv alice
         ''QmYwAPJzv5CZsnA625s3Xf2nemtYgPpHdWEz79ojWnPbdG'' ''will.pdf'' ''will''
         (Some 1700000650))]"

text \<open>
  The HTTP status of a response, the identity parameter of a request, and the requests
  whose parameters all pass validation.
\<close>

fun status :: "response \<Rightarrow> nat" where
  "status (Success code d) = code"
| "status (Failure code message details) = code"

fun identity :: "request \<Rightarrow> string" where
  "identity (GetWillsByTestator x) = x"
| "identity (GetWillsByBeneficiary x) = x"
| "identity (GetWill x) = x"
| "identity (GetBeneficiaries x) = x"
| "identity (GetVaults x) = x"
| "identity (GetDocuments x) = x"
| "identity (GetDocument x hash) = x"

fun well_formed :: "request \<Rightarrow> bool" where
  "well_formed (GetDocument x hash) = (isValidAddress x \<and> isValidIpfsHash hash)"
| "well_formed req = isValidAddress (identity req)"

section \<open>Verification\<close>

subsection \<open>The contract: loops, invariant, execution\<close>

lemma totalSharesFrom_eq:
  "acc \<le> UINT256_MAX \<Longrightarrow> totalSharesFrom acc bs =
     (if acc + sum_list (map share bs) \<le> UINT256_MAX
      then Inr (acc + sum_list (map share bs)) else Inl (Panic 17))"
  by (induction bs arbitrary: acc) (auto simp: checked_add_def)

lemma isBeneficiaryIn_iff: "isBeneficiaryIn u bs \<longleftrightarrow> u \<in> set (map wallet bs)"
  by (induction bs) auto

lemma isGuardianIn_iff:
  "isGuardianIn u bs \<longleftrightarrow> u \<in> set (map wallet (filter isGuardian bs))"
  by (induction bs) auto

lemma hasGuardianIn_iff: "hasGuardianIn bs \<longleftrightarrow> filter isGuardian bs \<noteq> []"
  by (induction bs) auto

lemma beneficiaryIndexFrom_Inr:
  "beneficiaryIndexFrom i a bs = Inr j \<Longrightarrow>
     i \<le> j \<and> j - i < length bs \<and> wallet (bs ! (j - i)) = a"
proof (induction bs arbitrary: i)
  case Nil
  then show ?case by simp
next
  case (Cons b bs)
  show ?case
  proof (cases "wallet b = a")
    case True
    with Cons.prems show ?thesis by simp
  next
    case False
    with Cons.prems have "beneficiaryIndexFrom (Suc i) a bs = Inr j" by simp
    from Cons.IH [OF this] have *: "Suc i \<le> j" "j - Suc i < length bs"
      "wallet (bs ! (j - Suc i)) = a" by auto
    from * have "j - i = Suc (j - Suc i)" by simp
    with * show ?thesis by simp
  qed
qed

lemma beneficiaryIndexFrom_member:
  "isBeneficiaryIn a bs \<Longrightarrow> \<exists>j. beneficiaryIndexFrom i a bs = Inr j"
  by (induction bs arbitrary: i) auto

lemma distribute_Inr:
  "distribute e F bs = Inr effs \<Longrightarrow>
     effs = map (\<lambda>b. Transfer (wallet b) (F * share b div 100))
              (filter (\<lambda>b. F * share b div 100 > 0) bs)"
  by (induction bs arbitrary: effs)
     (auto simp: checked_mul_def require_def Let_def split: if_splits sum.splits)

lemma distribute_succeeds:
  "\<forall>b \<in> set bs. F * share b \<le> UINT256_MAX \<and>
      (F * share b div 100 > 0 \<longrightarrow> call_succeeds e (wallet b) (F * share b div 100)) \<Longrightarrow>
   \<exists>effs. distribute e F bs = Inr effs"
  by (induction bs) (auto simp: checked_mul_def require_def Let_def)

lemma sum_list_map_update:
  fixes f :: "'a \<Rightarrow> nat"
  shows "i < length xs \<Longrightarrow>
     sum_list (map f (xs[i := y])) + f (xs ! i) = sum_list (map f xs) + f y"
proof (induction xs arbitrary: i)
  case Nil
  then show ?case by simp
next
  case (Cons x xs)
  then show ?case by (cases i) auto
qed

lemma sum_list_map_swap_pop:
  fixes f :: "'a \<Rightarrow> nat"
  assumes "i < length xs"
  shows "sum_list (map f (butlast (xs[i := xs ! (length xs - 1)]))) + f (xs ! i)
           = sum_list (map f xs)"
proof (cases xs rule: rev_cases)
  case Nil
  with assms show ?thesis by simp
next
  case (snoc ys l)
  show ?thesis
  proof (cases "i < length ys")
    case True
    then have "butlast (xs[i := xs ! (length xs - 1)]) = ys[i := l]"
      using snoc by (simp add: list_update_append nth_append)
    moreover have "xs ! i = ys ! i" using snoc True by (simp add: nth_append)
    ultimately show ?thesis
      using sum_list_map_update [OF True, of f l] snoc by simp
  next
    case False
    with assms snoc have "i = length ys" by simp
    then show ?thesis using snoc by (simp add: list_update_append nth_append)
  qed
qed

lemma distinct_swap_pop:
  assumes "distinct xs" "i < length xs"
  shows "distinct (butlast (xs[i := xs ! (length xs - 1)]))"
proof (cases xs rule: rev_cases)
  case Nil
  with assms show ?thesis by simp
next
  case (snoc ys l)
  show ?thesis
  proof (cases "i < length ys")
    case True
    then have "butlast (xs[i := xs ! (length xs - 1)]) = ys[i := l]"
      using snoc by (simp add: list_update_append nth_append)
    moreover have "distinct (ys[i := l])"
      using assms snoc by (intro distinct_list_update) auto
    ultimately show ?thesis by simp
  next
    case False
    with assms snoc have "i = length ys" by simp
    then show ?thesis using snoc assms by (simp add: list_update_append nth_append)
  qed
qed

lemma getTotalShares_eq:
  "getTotalShares ws t =
     (if totalShares (ws t) \<le> UINT256_MAX then Inr (totalShares (ws t)) else Inl (Panic 17))"
  using totalSharesFrom_eq [of 0 "beneficiaries (ws t)"]
  by (simp add: getTotalShares_def totalShares_def)

lemma length_filter_sum:
  "length (filter P xs) = sum_list (map (\<lambda>x. if P x then 1 else 0) xs)"
  by (induction xs) auto

lemma getBeneficiaryIndex_Inr:
  "getBeneficiaryIndex ws b t = Inr j \<Longrightarrow>
     j < length (beneficiaries (ws t)) \<and> wallet (beneficiaries (ws t) ! j) = b"
  using beneficiaryIndexFrom_Inr [of 0 b "beneficiaries (ws t)" j]
  by (simp add: getBeneficiaryIndex_def)

lemma will_inv_zero: "will_inv zero_Will"
  by (simp add: will_inv_def zero_Will_def totalShares_def guardianCount_def)

lemma createWill_inv:
  "createWill e cip dp ws = Inr (ws', effs) \<Longrightarrow> will_inv (ws a) \<Longrightarrow> will_inv (ws' a)"
  by (auto simp: createWill_def require_def nonpayable_def will_inv_def totalShares_def guardianCount_def
           split: if_splits)

lemma executeWill_inv:
  "executeWill e t ws = Inr (ws', effs) \<Longrightarrow> will_inv (ws a) \<Longrightarrow> will_inv (ws' a)"
  by (auto simp: executeWill_def require_def nonpayable_def Let_def will_inv_def totalShares_def
                 guardianCount_def
           split: if_splits sum.splits)

lemma addBeneficiary_Inr:
  assumes "addBeneficiary e b sh g ws = Inr (ws', effs)"
  shows "ws' = ws(msg_sender e := (ws (msg_sender e))
            \<lparr>beneficiaries := beneficiaries (ws (msg_sender e)) @
               [\<lparr>wallet = b, share = sh, isGuardian = g\<rparr>]\<rparr>)
     \<and> totalShares (ws (msg_sender e)) + sh \<le> 100
     \<and> \<not> isBeneficiaryIn b (beneficiaries (ws (msg_sender e)))
     \<and> (g \<longrightarrow> \<not> hasGuardianIn (beneficiaries (ws (msg_sender e))))"
  using assms
  by (cases g)
     (auto simp: addBeneficiary_def require_def nonpayable_def getTotalShares_eq checked_add_def
                 isBeneficiaryOfWill_def hasGuardian_def
           split: if_splits)

lemma addBeneficiary_inv:
  assumes "addBeneficiary e b sh g ws = Inr (ws', effs)" "will_inv (ws a)"
  shows "will_inv (ws' a)"
proof -
  note r = addBeneficiary_Inr [OF assms(1)]
  show ?thesis
  proof (cases "a = msg_sender e")
    case False
    with r assms(2) show ?thesis by simp
  next
    case True
    with r assms(2) show ?thesis
      by (auto simp: will_inv_def totalShares_def guardianCount_def isBeneficiaryIn_iff
                     hasGuardianIn_iff)
  qed
qed

lemma updateBeneficiary_Inr:
  assumes "updateBeneficiary e b sh g ws = Inr (ws', effs)"
  shows "\<exists>i. i < length (beneficiaries (ws (msg_sender e)))
     \<and> wallet (beneficiaries (ws (msg_sender e)) ! i) = b
     \<and> ws' = ws(msg_sender e := (ws (msg_sender e))
            \<lparr>beneficiaries := (beneficiaries (ws (msg_sender e)))
               [i := (beneficiaries (ws (msg_sender e)) ! i)\<lparr>share := sh, isGuardian := g\<rparr>]\<rparr>)
     \<and> totalShares (ws (msg_sender e)) - share (beneficiaries (ws (msg_sender e)) ! i) + sh \<le> 100
     \<and> share (beneficiaries (ws (msg_sender e)) ! i) \<le> totalShares (ws (msg_sender e))
     \<and> (g \<and> \<not> isGuardian (beneficiaries (ws (msg_sender e)) ! i)
          \<longrightarrow> \<not> hasGuardianIn (beneficiaries (ws (msg_sender e))))"
proof -
  from assms obtain i where i: "getBeneficiaryIndex ws b (msg_sender e) = Inr i"
    by (auto simp: updateBeneficiary_def require_def nonpayable_def Let_def split: if_splits sum.splits)
  note ir = getBeneficiaryIndex_Inr [OF i]
  show ?thesis
    using assms i ir
    by (intro exI [of _ i])
       (auto simp: updateBeneficiary_def require_def nonpayable_def Let_def getTotalShares_eq
                   checked_add_def checked_sub_def hasGuardian_def
             split: if_splits)
qed

lemma updateBeneficiary_inv:
  assumes "updateBeneficiary e b sh g ws = Inr (ws', effs)" "will_inv (ws a)"
  shows "will_inv (ws' a)"
proof -
  from updateBeneficiary_Inr [OF assms(1)] obtain i where
    i: "i < length (beneficiaries (ws (msg_sender e)))"
    and ws': "ws' = ws(msg_sender e := (ws (msg_sender e))
            \<lparr>beneficiaries := (beneficiaries (ws (msg_sender e)))
               [i := (beneficiaries (ws (msg_sender e)) ! i)\<lparr>share := sh, isGuardian := g\<rparr>]\<rparr>)"
    and le: "totalShares (ws (msg_sender e)) - share (beneficiaries (ws (msg_sender e)) ! i) + sh \<le> 100"
    and sub: "share (beneficiaries (ws (msg_sender e)) ! i) \<le> totalShares (ws (msg_sender e))"
    and gd: "g \<and> \<not> isGuardian (beneficiaries (ws (msg_sender e)) ! i)
          \<longrightarrow> \<not> hasGuardianIn (beneficiaries (ws (msg_sender e)))"
    by blast
  show ?thesis
  proof (cases "a = msg_sender e")
    case False
    with ws' assms(2) show ?thesis by simp
  next
    case True
    define bs where "bs = beneficiaries (ws (msg_sender e))"
    define nb where "nb = (bs ! i)\<lparr>share := sh, isGuardian := g\<rparr>"
    have bens: "beneficiaries (ws' a) = bs[i := nb]"
      using True ws' by (simp add: bs_def nb_def)
    have s: "sum_list (map share (bs[i := nb])) + share (bs ! i) = sum_list (map share bs) + sh"
      using sum_list_map_update [of i bs share nb] i by (simp add: bs_def nb_def)
    have g: "length (filter isGuardian (bs[i := nb])) + (if isGuardian (bs ! i) then 1 else 0)
               = length (filter isGuardian bs) + (if g then 1 else 0)"
      using sum_list_map_update [of i bs "\<lambda>x. if isGuardian x then 1 else 0" nb] i
      by (simp add: length_filter_sum bs_def nb_def)
    have w: "map wallet (bs[i := nb]) = map wallet bs"
      using i by (simp add: map_update nb_def bs_def list_update_same_conv)
    have inv: "sum_list (map share bs) \<le> 100" "length (filter isGuardian bs) \<le> 1"
      "distinct (map wallet bs)"
      using assms(2) True by (simp_all add: will_inv_def totalShares_def guardianCount_def bs_def)
    have "sum_list (map share (bs[i := nb])) \<le> 100"
      using s le sub by (simp add: totalShares_def bs_def)
    moreover have "length (filter isGuardian (bs[i := nb])) \<le> 1"
      using g gd inv(2) by (auto simp: hasGuardianIn_iff bs_def split: if_splits)
    ultimately show ?thesis
      using inv(3) w bens by (simp add: will_inv_def totalShares_def guardianCount_def)
  qed
qed

lemma removeBeneficiary_Inr:
  assumes "removeBeneficiary e b ws = Inr (ws', effs)"
  shows "\<exists>i. i < length (beneficiaries (ws (msg_sender e)))
     \<and> wallet (beneficiaries (ws (msg_sender e)) ! i) = b
     \<and> ws' = ws(msg_sender e := (ws (msg_sender e))
            \<lparr>beneficiaries := butlast ((beneficiaries (ws (msg_sender e)))
               [i := beneficiaries (ws (msg_sender e)) !
                       (length (beneficiaries (ws (msg_sender e))) - 1)])\<rparr>)"
proof -
  from assms obtain i where i: "getBeneficiaryIndex ws b (msg_sender e) = Inr i"
    by (auto simp: removeBeneficiary_def require_def nonpayable_def Let_def split: if_splits sum.splits)
  note ir = getBeneficiaryIndex_Inr [OF i]
  show ?thesis
    using assms i ir
    by (intro exI [of _ i])
       (auto simp: removeBeneficiary_def require_def nonpayable_def Let_def checked_sub_def
             split: if_splits)
qed

lemma removeBeneficiary_inv:
  assumes "removeBeneficiary e b ws = Inr (ws', effs)" "will_inv (ws a)"
  shows "will_inv (ws' a)"
proof -
  define bs where "bs = beneficiaries (ws (msg_sender e))"
  from removeBeneficiary_Inr [OF assms(1)] obtain i where
    i: "i < length bs"
    and ws': "ws' = ws(msg_sender e := (ws (msg_sender e))
            \<lparr>beneficiaries := butlast (bs[i := bs ! (length bs - 1)])\<rparr>)"
    unfolding bs_def by blast
  show ?thesis
  proof (cases "a = msg_sender e")
    case False
    with ws' assms(2) show ?thesis by simp
  next
    case True
    have bens: "beneficiaries (ws' a) = butlast (bs[i := bs ! (length bs - 1)])"
      using True ws' by simp
    have inv: "sum_list (map share bs) \<le> 100" "length (filter isGuardian bs) \<le> 1"
      "distinct (map wallet bs)"
      using assms(2) True by (simp_all add: will_inv_def totalShares_def guardianCount_def bs_def)
    have "sum_list (map share (butlast (bs[i := bs ! (length bs - 1)]))) \<le> 100"
      using sum_list_map_swap_pop [OF i, of share] inv(1) by simp
    moreover have "length (filter isGuardian (butlast (bs[i := bs ! (length bs - 1)]))) \<le> 1"
      using sum_list_map_swap_pop [OF i, of "\<lambda>x. if isGuardian x then 1 else 0"] inv(2)
      by (simp add: length_filter_sum)
    moreover have "map wallet (butlast (bs[i := bs ! (length bs - 1)]))
        = butlast ((map wallet bs)[i := map wallet bs ! (length (map wallet bs) - 1)])"
      using i by (simp add: map_butlast map_update)
    then have "distinct (map wallet (butlast (bs[i := bs ! (length bs - 1)])))"
      using distinct_swap_pop [OF inv(3), of i] i by simp
    ultimately show ?thesis
      using bens by (simp add: will_inv_def totalShares_def guardianCount_def)
  qed
qed

lemma vault_ops_beneficiaries:
  "depositLocked e ws = Inr (ws', effs) \<Longrightarrow> beneficiaries (ws' a) = beneficiaries (ws a)"
  "depositFlexible e ws = Inr (ws', effs) \<Longrightarrow> beneficiaries (ws' a) = beneficiaries (ws a)"
  "withdrawFlexible e amount ws = Inr (ws', effs) \<Longrightarrow> beneficiaries (ws' a) = beneficiaries (ws a)"
  "checkIn e ws = Inr (ws', effs) \<Longrightarrow> beneficiaries (ws' a) = beneficiaries (ws a)"
  by (auto simp: depositLocked_def depositFlexible_def withdrawFlexible_def checkIn_def
                 require_def nonpayable_def checked_add_def checked_sub_def
           split: if_splits)

lemma will_inv_cong:
  "beneficiaries w' = beneficiaries w \<Longrightarrow> will_inv w' = will_inv w"
  by (simp add: will_inv_def totalShares_def guardianCount_def)

lemma dispatch_inv:
  assumes "dispatch e c ws = Inr (ws', effs)" "will_inv (ws a)"
  shows "will_inv (ws' a)"
proof (cases c)
  case (CreateWill cip dp)
  with assms show ?thesis by (simp add: createWill_inv)
next
  case (ExecuteWill t)
  with assms show ?thesis by (simp add: executeWill_inv)
next
  case (AddBeneficiary b sh g)
  with assms show ?thesis by (simp add: addBeneficiary_inv)
next
  case (UpdateBeneficiary b sh g)
  with assms show ?thesis by (simp add: updateBeneficiary_inv)
next
  case (RemoveBeneficiary b)
  with assms show ?thesis by (simp add: removeBeneficiary_inv)
next
  case DepositLockedCall
  with assms show ?thesis using vault_ops_beneficiaries(1) will_inv_cong by (metis dispatch.simps(6))
next
  case DepositFlexibleCall
  with assms show ?thesis using vault_ops_beneficiaries(2) will_inv_cong by (metis dispatch.simps(7))
next
  case (WithdrawFlexibleCall amount)
  with assms show ?thesis using vault_ops_beneficiaries(3) will_inv_cong by (metis dispatch.simps(8))
next
  case CheckInCall
  with assms show ?thesis using vault_ops_beneficiaries(4) will_inv_cong by (metis dispatch.simps(9))
qed

lemma reachable_will_inv: "reachable ws \<Longrightarrow> will_inv (ws a)"
proof (induction arbitrary: a rule: reachable.induct)
  case reachable_initial
  show ?case by (simp add: initial_wills_def will_inv_zero)
next
  case (reachable_step ws e c ws' effs)
  then show ?case using dispatch_inv by blast
qed

lemma hundred_le_UINT256_MAX: "100 \<le> UINT256_MAX"
  by (simp add: UINT256_MAX_def)

lemma share_le_sum: "b \<in> set bs \<Longrightarrow> share b \<le> sum_list (map share bs)"
  by (induction bs) auto

lemma share_le_totalShares: "b \<in> set (beneficiaries w) \<Longrightarrow> share b \<le> totalShares w"
  unfolding totalShares_def by (rule share_le_sum)

lemma executeWill_Inl_locked:
  assumes "testator (ws t) \<noteq> 0" "\<not> executed (ws t)" "block_timestamp e \<le> deadline (ws t)"
  shows "\<exists>err. executeWill e t ws = Inl err"
    and "disputeEnd (ws t) \<le> UINT256_MAX \<Longrightarrow> msg_value e = 0 \<Longrightarrow>
           executeWill e t ws = Inl (Revert ''Check-in period has not expired'')"
  using assms
  by (auto simp: executeWill_def require_def nonpayable_def Let_def checked_add_def deadline_def disputeEnd_def
           split: sum.splits)

lemma executeWill_Inr:
  assumes "executeWill e t ws = Inr (ws', effs)"
  shows "testator (ws t) \<noteq> 0" "\<not> executed (ws t)"
    "disputeEnd (ws t) \<le> UINT256_MAX" "deadline (ws t) < block_timestamp e"
    "if block_timestamp e \<le> disputeEnd (ws t) then isGuardianOfWill ws (msg_sender e) t
     else isBeneficiaryOfWill ws (msg_sender e) t"
    "totalFunds (ws t) > 0" "totalShares (ws t) = 100"
    "ws' = ws(t := (ws t)\<lparr>executed := True, lockedVault := 0, flexibleVault := 0\<rparr>)"
    "effs = map (\<lambda>b. Transfer (wallet b) (payout (ws t) b))
              (filter (\<lambda>b. payout (ws t) b > 0) (beneficiaries (ws t)))
            @ [Emit (WillExecuted t (totalFunds (ws t)))]"
    "msg_value e = 0"
  using assms
  by (auto simp: executeWill_def require_def nonpayable_def Let_def checked_add_def deadline_def disputeEnd_def
                 totalFunds_def getTotalShares_eq payout_def
           split: sum.splits if_splits dest!: distribute_Inr)

lemma executeWill_success:
  assumes "testator (ws t) \<noteq> 0" "\<not> executed (ws t)"
    "disputeEnd (ws t) \<le> UINT256_MAX" "deadline (ws t) < block_timestamp e"
    "if block_timestamp e \<le> disputeEnd (ws t) then isGuardianOfWill ws (msg_sender e) t
     else isBeneficiaryOfWill ws (msg_sender e) t"
    "payable e (ws t)" "msg_value e = 0"
  shows "\<exists>ws' effs. executeWill e t ws = Inr (ws', effs)"
proof -
  have F: "totalFunds (ws t) \<le> UINT256_MAX" "totalFunds (ws t) > 0" "totalShares (ws t) = 100"
    using assms(6) by (auto simp: payable_def)
  have "\<forall>b \<in> set (beneficiaries (ws t)). totalFunds (ws t) * share b \<le> UINT256_MAX \<and>
      (totalFunds (ws t) * share b div 100 > 0 \<longrightarrow>
         call_succeeds e (wallet b) (totalFunds (ws t) * share b div 100))"
  proof
    fix b assume b: "b \<in> set (beneficiaries (ws t))"
    then have "share b \<le> 100" using share_le_totalShares [OF b] F(3) by simp
    then have "totalFunds (ws t) * share b \<le> totalFunds (ws t) * 100" by simp
    moreover have "totalFunds (ws t) * 100 \<le> UINT256_MAX"
      using assms(6) by (simp add: payable_def)
    ultimately have "totalFunds (ws t) * share b \<le> UINT256_MAX" by (rule order_trans)
    moreover have "payout (ws t) b = 0 \<or> call_succeeds e (wallet b) (payout (ws t) b)"
      using assms(6) b by (auto simp: payable_def list_all_iff)
    ultimately show "totalFunds (ws t) * share b \<le> UINT256_MAX \<and>
      (totalFunds (ws t) * share b div 100 > 0 \<longrightarrow>
         call_succeeds e (wallet b) (totalFunds (ws t) * share b div 100))"
      by (auto simp: payout_def)
  qed
  from distribute_succeeds [OF this] obtain effs where
    "distribute e (totalFunds (ws t)) (beneficiaries (ws t)) = Inr effs" by blast
  then show ?thesis
    using assms(1-5,7) F hundred_le_UINT256_MAX
    by (auto simp: executeWill_def require_def nonpayable_def Let_def checked_add_def deadline_def
                   disputeEnd_def totalFunds_def getTotalShares_eq)
qed

lemma executeWill_value:
  "msg_value e \<noteq> 0 \<Longrightarrow> executeWill e t ws = Inl RevertNoData"
  by (simp add: executeWill_def nonpayable_def)

lemma executeWill_unauthorized:
  assumes "testator (ws t) \<noteq> 0" "\<not> executed (ws t)"
    "disputeEnd (ws t) \<le> UINT256_MAX" "deadline (ws t) < block_timestamp e"
    "msg_value e = 0"
  shows "block_timestamp e \<le> disputeEnd (ws t) \<Longrightarrow> \<not> isGuardianOfWill ws (msg_sender e) t \<Longrightarrow>
           executeWill e t ws = Inl (Revert ''Only guardian can execute during dispute period'')"
    and "disputeEnd (ws t) < block_timestamp e \<Longrightarrow> \<not> isBeneficiaryOfWill ws (msg_sender e) t \<Longrightarrow>
           executeWill e t ws = Inl (Revert ''Only beneficiaries can execute will'')"
  using assms
  by (auto simp: executeWill_def require_def nonpayable_def Let_def checked_add_def deadline_def disputeEnd_def)

lemma scenario_env_simps:
  "msg_sender (scenario_env s v ts) = s" "msg_value (scenario_env s v ts) = v"
  "block_timestamp (scenario_env s v ts) = ts" "call_succeeds (scenario_env s v ts) a x"
  by (simp_all add: scenario_env_def)

lemma small_le_UINT256_MAX: "n \<le> 4294967295 \<Longrightarrow> n \<le> UINT256_MAX"
  by (simp add: UINT256_MAX_def)

lemma scenario_wills_eq: "scenario_wills = initial_wills(10 := scenario_will)"
  by (simp add: scenario_wills_def scenario_txs_def scenario_env_def transact_def
                createWill_def addBeneficiary_def depositLocked_def depositFlexible_def
                require_def nonpayable_def initial_wills_def zero_Will_def isBeneficiaryOfWill_def
                hasGuardian_def getTotalShares_def checked_add_def small_le_UINT256_MAX
                scenario_will_def)

lemma scenario_at_testator: "scenario_wills 10 = scenario_will"
  by (simp add: scenario_wills_eq)

lemma reachable_transact: "reachable ws \<Longrightarrow> reachable (transact e c ws)"
  by (auto simp: transact_def split: sum.splits intro: reachable_step)

lemma reachable_run: "reachable ws \<Longrightarrow> reachable (run txs ws)"
  by (induction txs ws rule: run.induct) (simp_all add: reachable_transact)

lemma reachable_scenario: "reachable scenario_wills"
  unfolding scenario_wills_def by (rule reachable_run) (rule reachable_initial)

lemma scenario_facts:
  "testator scenario_will = 10" "\<not> executed scenario_will"
  "deadline scenario_will = 1702592000" "disputeEnd scenario_will = 1703196800"
  "totalFunds scenario_will = 15" "totalShares scenario_will = 100"
  "beneficiaries scenario_will = [\<lparr>wallet = 11, share = 60, isGuardian = False\<rparr>,
                       \<lparr>wallet = 12, share = 40, isGuardian = True\<rparr>]"
  "payable (scenario_env s v ts) scenario_will"
  by (simp_all add: scenario_will_def deadline_def disputeEnd_def totalFunds_def
                    totalShares_def payable_def payout_def scenario_env_def
                    small_le_UINT256_MAX)

text \<open>
  Claim C2 (phased authorization of \<open>executeWill\<close>). \<open>executeWill\<close> is not payable: a
  call that carries value reverts without data before anything else. For a will that
  exists and is not executed, with \<open>deadline = lastCheckIn + checkInPeriod\<close> and
  \<open>disputeEnd = deadline + disputePeriod\<close>, at block time \<open>t\<close>:
  \<^item> \<open>t \<le> deadline\<close>: the call fails for every caller; a call without value fails with
    "Check-in period has not expired" (the two checked additions of the source panic
    instead when \<open>disputeEnd\<close> does not fit a \<open>uint256\<close>);
  \<^item> \<open>deadline < t \<le> disputeEnd\<close>: a call that succeeds comes from the guardian; a call
    without value by any other caller fails with "Only guardian can execute during
    dispute period"; the guardian's call without value succeeds when the other
    preconditions (\<open>payable\<close>: funds, shares equal to 100, the multiplication in range,
    every transfer accepted) are met;
  \<^item> \<open>t > disputeEnd\<close>: a call that succeeds comes from a listed beneficiary; a call
    without value by a non-beneficiary fails with "Only beneficiaries can execute will";
    a listed beneficiary's call without value succeeds when the other preconditions are
    met.
\<close>

theorem executeWill_phased_authorization:
  assumes "testator (ws t) \<noteq> 0" and "\<not> executed (ws t)"
    and "block_timestamp e \<le> UINT256_MAX"
  shows
    "(msg_value e \<noteq> 0 \<longrightarrow> executeWill e t ws = Inl RevertNoData) \<and>
     (block_timestamp e \<le> deadline (ws t) \<longrightarrow>
        (\<exists>err. executeWill e t ws = Inl err) \<and>
        (msg_value e = 0 \<and> disputeEnd (ws t) \<le> UINT256_MAX \<longrightarrow>
           executeWill e t ws = Inl (Revert ''Check-in period has not expired''))) \<and>
     (deadline (ws t) < block_timestamp e \<and> block_timestamp e \<le> disputeEnd (ws t) \<longrightarrow>
        ((\<exists>ws' effs. executeWill e t ws = Inr (ws', effs)) \<longrightarrow>
           isGuardianOfWill ws (msg_sender e) t) \<and>
        (msg_value e = 0 \<and> \<not> isGuardianOfWill ws (msg_sender e) t \<and>
         disputeEnd (ws t) \<le> UINT256_MAX \<longrightarrow>
           executeWill e t ws =
             Inl (Revert ''Only guardian can execute during dispute period'')) \<and>
        (msg_value e = 0 \<and> isGuardianOfWill ws (msg_sender e) t \<and>
         disputeEnd (ws t) \<le> UINT256_MAX \<and> payable e (ws t) \<longrightarrow>
           (\<exists>ws' effs. executeWill e t ws = Inr (ws', effs)))) \<and>
     (disputeEnd (ws t) < block_timestamp e \<longrightarrow>
        ((\<exists>ws' effs. executeWill e t ws = Inr (ws', effs)) \<longrightarrow>
           isBeneficiaryOfWill ws (msg_sender e) t) \<and>
        (msg_value e = 0 \<and> \<not> isBeneficiaryOfWill ws (msg_sender e) t \<longrightarrow>
           executeWill e t ws = Inl (Revert ''Only beneficiaries can execute will'')) \<and>
        (msg_value e = 0 \<and> isBeneficiaryOfWill ws (msg_sender e) t \<and> payable e (ws t) \<longrightarrow>
           (\<exists>ws' effs. executeWill e t ws = Inr (ws', effs))))"
proof (intro conjI impI)
  assume "msg_value e \<noteq> 0"
  then show "executeWill e t ws = Inl RevertNoData" by (rule executeWill_value)
next
  assume "block_timestamp e \<le> deadline (ws t)"
  then show "\<exists>err. executeWill e t ws = Inl err"
    using executeWill_Inl_locked(1) assms by blast
next
  assume "block_timestamp e \<le> deadline (ws t)"
    "msg_value e = 0 \<and> disputeEnd (ws t) \<le> UINT256_MAX"
  then show "executeWill e t ws = Inl (Revert ''Check-in period has not expired'')"
    using executeWill_Inl_locked(2) assms by blast
next
  assume ph: "deadline (ws t) < block_timestamp e \<and> block_timestamp e \<le> disputeEnd (ws t)"
    and "\<exists>ws' effs. executeWill e t ws = Inr (ws', effs)"
  then obtain ws' effs where "executeWill e t ws = Inr (ws', effs)" by blast
  from executeWill_Inr(5) [OF this] ph show "isGuardianOfWill ws (msg_sender e) t" by simp
next
  assume "deadline (ws t) < block_timestamp e \<and> block_timestamp e \<le> disputeEnd (ws t)"
    "msg_value e = 0 \<and> \<not> isGuardianOfWill ws (msg_sender e) t \<and>
     disputeEnd (ws t) \<le> UINT256_MAX"
  then show "executeWill e t ws =
      Inl (Revert ''Only guardian can execute during dispute period'')"
    using executeWill_unauthorized(1) assms by blast
next
  assume "deadline (ws t) < block_timestamp e \<and> block_timestamp e \<le> disputeEnd (ws t)"
    "msg_value e = 0 \<and> isGuardianOfWill ws (msg_sender e) t \<and>
     disputeEnd (ws t) \<le> UINT256_MAX \<and> payable e (ws t)"
  then show "\<exists>ws' effs. executeWill e t ws = Inr (ws', effs)"
    using executeWill_success [of ws t e] assms by simp
next
  assume ph: "disputeEnd (ws t) < block_timestamp e"
    and "\<exists>ws' effs. executeWill e t ws = Inr (ws', effs)"
  then obtain ws' effs where "executeWill e t ws = Inr (ws', effs)" by blast
  from executeWill_Inr(5) [OF this] ph show "isBeneficiaryOfWill ws (msg_sender e) t" by simp
next
  assume ph: "disputeEnd (ws t) < block_timestamp e"
    and "msg_value e = 0 \<and> \<not> isBeneficiaryOfWill ws (msg_sender e) t"
  moreover have "disputeEnd (ws t) \<le> UINT256_MAX" using ph assms(3) by simp
  moreover have "deadline (ws t) < block_timestamp e" using ph by (simp add: disputeEnd_def)
  ultimately show "executeWill e t ws = Inl (Revert ''Only beneficiaries can execute will'')"
    using executeWill_unauthorized(2) assms by blast
next
  assume ph: "disputeEnd (ws t) < block_timestamp e"
    and ok: "msg_value e = 0 \<and> isBeneficiaryOfWill ws (msg_sender e) t \<and> payable e (ws t)"
  have "disputeEnd (ws t) \<le> UINT256_MAX" using ph assms(3) by simp
  moreover have "deadline (ws t) < block_timestamp e" using ph by (simp add: disputeEnd_def)
  ultimately show "\<exists>ws' effs. executeWill e t ws = Inr (ws', effs)"
    using executeWill_success [of ws t e] assms ph ok by simp
qed

lemma scenario_roles:
  "isGuardianOfWill scenario_wills 12 10" "\<not> isGuardianOfWill scenario_wills 11 10"
  "isBeneficiaryOfWill scenario_wills 11 10" "isBeneficiaryOfWill scenario_wills 12 10"
  "\<not> isBeneficiaryOfWill scenario_wills 99 10"
  by (simp_all add: isGuardianOfWill_def isBeneficiaryOfWill_def scenario_at_testator scenario_facts)

theorem executeWill_phased_authorization_witness:
  "executeWill (scenario_env 12 1 1703196800) 10 scenario_wills = Inl RevertNoData \<and>
   executeWill (scenario_env 12 0 1702592000) 10 scenario_wills =
     Inl (Revert ''Check-in period has not expired'') \<and>
   executeWill (scenario_env 11 0 1702592001) 10 scenario_wills =
     Inl (Revert ''Only guardian can execute during dispute period'') \<and>
   (\<exists>ws' effs. executeWill (scenario_env 12 0 1703196800) 10 scenario_wills = Inr (ws', effs)) \<and>
   executeWill (scenario_env 99 0 1703196801) 10 scenario_wills =
     Inl (Revert ''Only beneficiaries can execute will'') \<and>
   (\<exists>ws' effs. executeWill (scenario_env 11 0 1703196801) 10 scenario_wills = Inr (ws', effs))"
proof -
  have h: "testator (scenario_wills 10) \<noteq> 0" "\<not> executed (scenario_wills 10)"
    by (simp_all add: scenario_at_testator scenario_facts)
  have ts: "block_timestamp (scenario_env s v 1702592000) \<le> UINT256_MAX"
    "block_timestamp (scenario_env s v 1702592001) \<le> UINT256_MAX"
    "block_timestamp (scenario_env s v 1703196800) \<le> UINT256_MAX"
    "block_timestamp (scenario_env s v 1703196801) \<le> UINT256_MAX" for s v
    by (simp_all add: scenario_env_simps small_le_UINT256_MAX)
  have d: "disputeEnd (scenario_wills 10) \<le> UINT256_MAX"
    by (simp add: scenario_at_testator scenario_facts small_le_UINT256_MAX)
  note T = executeWill_phased_authorization [where ws = scenario_wills and t = 10]
  show ?thesis
    using T [where e = "scenario_env 12 1 1703196800"]
      T [where e = "scenario_env 12 0 1702592000"]
      T [where e = "scenario_env 11 0 1702592001"]
      T [where e = "scenario_env 12 0 1703196800"]
      T [where e = "scenario_env 99 0 1703196801"]
      T [where e = "scenario_env 11 0 1703196801"]
      h ts d scenario_roles
    by (simp add: scenario_at_testator scenario_facts scenario_env_simps)
qed

lemma transfers_append: "transfers (xs @ ys) = transfers xs @ transfers ys"
  by (induction xs rule: transfers.induct) auto

lemma transfers_map_Transfer:
  "transfers (map (\<lambda>b. Transfer (f b) (g b)) bs) = map (\<lambda>b. (f b, g b)) bs"
  by (induction bs) auto

lemma received_distinct:
  fixes g :: "Beneficiary \<Rightarrow> nat"
  assumes "distinct (map wallet bs)" "b \<in> set bs"
  shows "sum_list (map snd (filter (\<lambda>p. fst p = wallet b)
           (map (\<lambda>x. (wallet x, g x)) (filter (\<lambda>x. g x > 0) bs)))) = g b"
  using assms
proof (induction bs)
  case Nil
  then show ?case by simp
next
  case (Cons x xs)
  show ?case
  proof (cases "x = b")
    case True
    have "wallet b \<notin> set (map wallet xs)" using Cons.prems(1) True by simp
    then have "\<forall>y \<in> set xs. wallet y \<noteq> wallet b"
      by (metis image_eqI set_map)
    then have "filter (\<lambda>p. fst p = wallet b) (map (\<lambda>x. (wallet x, g x)) (filter (\<lambda>x. g x > 0) xs)) = []"
      by (simp add: filter_empty_conv)
    then show ?thesis using True by simp
  next
    case False
    then have "b \<in> set xs" using Cons.prems by simp
    moreover from this have "wallet x \<noteq> wallet b" using Cons.prems(1) by auto
    ultimately show ?thesis using Cons by simp
  qed
qed

text \<open>
  Distribution when no recipient calls back. A successful \<open>executeWill\<close> sends, in the
  order of the beneficiary array, \<open>floor(totalFunds * share / 100)\<close> to each beneficiary
  whose amount is positive, where \<open>totalFunds = lockedVault + flexibleVault\<close> before the
  call; in a reachable state (wallets are distinct there) each beneficiary receives
  exactly that amount; both vaults are zero afterwards. In the scenario of the
  specification (10 locked, 5 flexible, B = 11 with share 60, guardian G = 12 with share
  40) a call by B or G at any time after \<open>deadline + disputePeriod\<close> sends 9 to B and 6
  to G.
\<close>

lemma executeWill_distribution:
  "(executeWill e t ws = Inr (ws', effs) \<longrightarrow>
      transfers effs =
        map (\<lambda>b. (wallet b, totalFunds (ws t) * share b div 100))
          (filter (\<lambda>b. totalFunds (ws t) * share b div 100 > 0) (beneficiaries (ws t))) \<and>
      (reachable ws \<longrightarrow>
        (\<forall>b \<in> set (beneficiaries (ws t)).
           received (wallet b) effs = totalFunds (ws t) * share b div 100)) \<and>
      lockedVault (ws' t) = 0 \<and> flexibleVault (ws' t) = 0) \<and>
   (\<forall>caller \<in> {11, 12}. \<forall>now. 1700000000 + 2592000 + 604800 < now \<and> now \<le> UINT256_MAX \<longrightarrow>
      totalFunds (scenario_wills 10) = 15 \<and>
      executeWill (scenario_env caller 0 now) 10 scenario_wills =
        Inr (scenario_wills(10 := (scenario_wills 10)
               \<lparr>executed := True, lockedVault := 0, flexibleVault := 0\<rparr>),
             [Transfer 11 9, Transfer 12 6, Emit (WillExecuted 10 15)]))"
proof (intro conjI impI ballI allI)
  assume ex: "executeWill e t ws = Inr (ws', effs)"
  note r = executeWill_Inr [OF ex]
  show tr: "transfers effs =
        map (\<lambda>b. (wallet b, totalFunds (ws t) * share b div 100))
          (filter (\<lambda>b. totalFunds (ws t) * share b div 100 > 0) (beneficiaries (ws t)))"
    using r(9) by (simp add: transfers_append transfers_map_Transfer payout_def)
  show "lockedVault (ws' t) = 0" "flexibleVault (ws' t) = 0" using r(8) by simp_all
  fix b assume "reachable ws" and b: "b \<in> set (beneficiaries (ws t))"
  then have "distinct (map wallet (beneficiaries (ws t)))"
    using reachable_will_inv [of ws t] by (simp add: will_inv_def)
  from received_distinct [OF this b, of "\<lambda>b. totalFunds (ws t) * share b div 100"]
  show "received (wallet b) effs = totalFunds (ws t) * share b div 100"
    by (simp add: received_def tr)
next
  fix caller :: nat and now :: nat
  assume "caller \<in> {11, 12}"
  show "totalFunds (scenario_wills 10) = 15"
    by (simp add: scenario_at_testator scenario_facts)
next
  fix caller :: nat and now :: nat
  assume c: "caller \<in> {11, 12}"
    and now: "1700000000 + 2592000 + 604800 < now \<and> now \<le> UINT256_MAX"
  have auth: "isBeneficiaryOfWill scenario_wills caller 10"
    using c scenario_roles by auto
  have "\<exists>ws' effs. executeWill (scenario_env caller 0 now) 10 scenario_wills = Inr (ws', effs)"
    using now auth
    by (intro executeWill_success)
       (simp_all add: scenario_at_testator scenario_facts scenario_env_simps small_le_UINT256_MAX)
  then obtain ws' effs where
    ex: "executeWill (scenario_env caller 0 now) 10 scenario_wills = Inr (ws', effs)" by blast
  from executeWill_Inr(8,9) [OF ex]
  show "executeWill (scenario_env caller 0 now) 10 scenario_wills =
        Inr (scenario_wills(10 := (scenario_wills 10)
               \<lparr>executed := True, lockedVault := 0, flexibleVault := 0\<rparr>),
             [Transfer 11 9, Transfer 12 6, Emit (WillExecuted 10 15)])"
    using ex by (simp add: scenario_at_testator scenario_facts payout_def)
qed

lemma executeWill_distribution_scenario:
  "executeWill (scenario_env 11 0 1703196801) 10 scenario_wills =
     Inr (scenario_wills(10 := (scenario_wills 10)
            \<lparr>executed := True, lockedVault := 0, flexibleVault := 0\<rparr>),
          [Transfer 11 9, Transfer 12 6, Emit (WillExecuted 10 15)]) \<and>
   received 11 [Transfer 11 9, Transfer 12 6, Emit (WillExecuted 10 15)] = 15 * 60 div 100 \<and>
   received 12 [Transfer 11 9, Transfer 12 6, Emit (WillExecuted 10 15)] = 15 * 40 div 100"
proof -
  have now: "(1700000000::nat) + 2592000 + 604800 < 1703196801 \<and> 1703196801 \<le> UINT256_MAX"
    by (simp add: small_le_UINT256_MAX)
  note T = executeWill_distribution [where e = "scenario_env 11 0 1703196801" and t = 10
      and ws = scenario_wills
      and ws' = "scenario_wills(10 := (scenario_wills 10)
            \<lparr>executed := True, lockedVault := 0, flexibleVault := 0\<rparr>)"
      and effs = "[Transfer 11 9, Transfer 12 6, Emit (WillExecuted 10 15)]"]
  from T have run: "executeWill (scenario_env 11 0 1703196801) 10 scenario_wills =
     Inr (scenario_wills(10 := (scenario_wills 10)
            \<lparr>executed := True, lockedVault := 0, flexibleVault := 0\<rparr>),
          [Transfer 11 9, Transfer 12 6, Emit (WillExecuted 10 15)])"
    using now by blast
  with T reachable_scenario have
    "\<forall>b \<in> set (beneficiaries (scenario_wills 10)).
        received (wallet b) [Transfer 11 9, Transfer 12 6, Emit (WillExecuted 10 15)]
          = totalFunds (scenario_wills 10) * share b div 100"
    by blast
  then show ?thesis using run
    by (simp add: scenario_at_testator scenario_facts)
qed

lemma executed_deposit_fails:
  assumes "testator (ws t) \<noteq> 0" "executed (ws t)" "msg_sender e = t"
  shows "depositLocked e ws = Inl (Revert ''Will already executed'')"
    "depositFlexible e ws = Inl (Revert ''Will already executed'')"
  using assms by (simp_all add: depositLocked_def depositFlexible_def require_def)

lemma executed_call_fails:
  assumes "testator (ws t) \<noteq> 0" "executed (ws t)" "msg_sender e = t" "msg_value e = 0"
  shows "withdrawFlexible e amount ws = Inl (Revert ''Will already executed'')"
    "addBeneficiary e b sh g ws = Inl (Revert ''Will already executed'')"
    "updateBeneficiary e b sh g ws = Inl (Revert ''Will already executed'')"
    "removeBeneficiary e b ws = Inl (Revert ''Will already executed'')"
    "checkIn e ws = Inl (Revert ''Will already executed'')"
  using assms
  by (simp_all add: withdrawFlexible_def addBeneficiary_def updateBeneficiary_def
                    removeBeneficiary_def checkIn_def require_def nonpayable_def)

lemma value_call_fails:
  assumes "msg_value e \<noteq> 0"
  shows "withdrawFlexible e amount ws = Inl RevertNoData"
    "addBeneficiary e b sh g ws = Inl RevertNoData"
    "updateBeneficiary e b sh g ws = Inl RevertNoData"
    "removeBeneficiary e b ws = Inl RevertNoData"
    "checkIn e ws = Inl RevertNoData"
    "createWill e cip dp ws = Inl RevertNoData"
  using assms
  by (simp_all add: withdrawFlexible_def addBeneficiary_def updateBeneficiary_def
                    removeBeneficiary_def checkIn_def createWill_def nonpayable_def)

lemma executed_mutator_fails:
  assumes "testator (ws t) \<noteq> 0" "executed (ws t)" "msg_sender e = t"
  shows "\<exists>err. depositLocked e ws = Inl err"
    "\<exists>err. depositFlexible e ws = Inl err"
    "\<exists>err. withdrawFlexible e amount ws = Inl err"
    "\<exists>err. addBeneficiary e b sh g ws = Inl err"
    "\<exists>err. updateBeneficiary e b sh g ws = Inl err"
    "\<exists>err. removeBeneficiary e b ws = Inl err"
    "\<exists>err. checkIn e ws = Inl err"
  using executed_deposit_fails [where ws = ws and t = t and e = e, OF assms]
    executed_call_fails [where ws = ws and t = t and e = e, OF assms]
    value_call_fails [of e]
  by (cases "msg_value e = 0"; simp)+

lemma executed_createWill_fails:
  "testator (ws t) \<noteq> 0 \<Longrightarrow> msg_sender e = t \<Longrightarrow> \<exists>err. createWill e cip dp ws = Inl err"
  by (simp add: createWill_def require_def nonpayable_def)

lemma executed_executeWill_fails:
  "testator (ws t) \<noteq> 0 \<Longrightarrow> executed (ws t) \<Longrightarrow> \<exists>err. executeWill e t ws = Inl err"
  by (simp add: executeWill_def require_def nonpayable_def)

lemma sender_keyed_other:
  assumes "a \<noteq> msg_sender e"
  shows "createWill e cip dp ws = Inr (ws', effs) \<Longrightarrow> ws' a = ws a"
    "depositLocked e ws = Inr (ws', effs) \<Longrightarrow> ws' a = ws a"
    "depositFlexible e ws = Inr (ws', effs) \<Longrightarrow> ws' a = ws a"
    "withdrawFlexible e amount ws = Inr (ws', effs) \<Longrightarrow> ws' a = ws a"
    "checkIn e ws = Inr (ws', effs) \<Longrightarrow> ws' a = ws a"
    "addBeneficiary e b sh g ws = Inr (ws', effs) \<Longrightarrow> ws' a = ws a"
    "updateBeneficiary e b sh g ws = Inr (ws', effs) \<Longrightarrow> ws' a = ws a"
    "removeBeneficiary e b ws = Inr (ws', effs) \<Longrightarrow> ws' a = ws a"
proof -
  show "createWill e cip dp ws = Inr (ws', effs) \<Longrightarrow> ws' a = ws a"
    using assms by (auto simp: createWill_def require_def nonpayable_def split: if_splits)
  show "depositLocked e ws = Inr (ws', effs) \<Longrightarrow> ws' a = ws a"
    using assms by (auto simp: depositLocked_def require_def checked_add_def split: if_splits)
  show "depositFlexible e ws = Inr (ws', effs) \<Longrightarrow> ws' a = ws a"
    using assms by (auto simp: depositFlexible_def require_def checked_add_def split: if_splits)
  show "withdrawFlexible e amount ws = Inr (ws', effs) \<Longrightarrow> ws' a = ws a"
    using assms by (auto simp: withdrawFlexible_def require_def nonpayable_def checked_sub_def split: if_splits)
  show "checkIn e ws = Inr (ws', effs) \<Longrightarrow> ws' a = ws a"
    using assms by (auto simp: checkIn_def require_def nonpayable_def split: if_splits)
  show "addBeneficiary e b sh g ws = Inr (ws', effs) \<Longrightarrow> ws' a = ws a"
    using assms addBeneficiary_Inr [of e b sh g ws ws' effs] by simp
  show "updateBeneficiary e b sh g ws = Inr (ws', effs) \<Longrightarrow> ws' a = ws a"
    using assms updateBeneficiary_Inr [of e b sh g ws ws' effs] by auto
  show "removeBeneficiary e b ws = Inr (ws', effs) \<Longrightarrow> ws' a = ws a"
    using assms removeBeneficiary_Inr [of e b ws ws' effs] by auto
qed

lemma executeWill_other:
  "executeWill e t ws = Inr (ws', effs) \<Longrightarrow> a \<noteq> t \<Longrightarrow> ws' a = ws a"
  using executeWill_Inr(8) [of e t ws ws' effs] by simp

lemma frozen_case:
  assumes "r = Inr (ws', effs)" "a \<noteq> s \<Longrightarrow> ws' a = ws a" "a = s \<Longrightarrow> \<exists>err. r = Inl err"
  shows "ws' a = ws a"
  using assms by (cases "a = s") auto

lemma executed_frozen:
  assumes "testator (ws a) \<noteq> 0" "executed (ws a)"
  shows "transact e c ws a = ws a"
proof (cases "dispatch e c ws")
  case (Inl err)
  then show ?thesis by (simp add: transact_def)
next
  case (Inr r)
  obtain ws' effs where r: "r = (ws', effs)" by (cases r)
  have "ws' a = ws a"
  proof (cases c)
    case (ExecuteWill t)
    then have d: "executeWill e t ws = Inr (ws', effs)" using Inr r by simp
    show ?thesis
      by (rule frozen_case [OF d, where s = t])
         (use executeWill_other [OF d] executed_executeWill_fails [where ws = ws and t = a and e = e, OF assms] in simp_all)
  next
    case (CreateWill cip dp)
    then have d: "createWill e cip dp ws = Inr (ws', effs)" using Inr r by simp
    show ?thesis
      by (rule frozen_case [OF d, where s = "msg_sender e"])
         (use sender_keyed_other(1) [OF _ d] executed_createWill_fails [where ws = ws and t = a and e = e, OF assms(1)] in simp_all)
  next
    case (AddBeneficiary b sh g)
    then have d: "addBeneficiary e b sh g ws = Inr (ws', effs)" using Inr r by simp
    show ?thesis
      by (rule frozen_case [OF d, where s = "msg_sender e"])
         (use sender_keyed_other(6) [OF _ d] executed_mutator_fails(4) [where ws = ws and t = a and e = e, OF assms] in simp_all)
  next
    case (UpdateBeneficiary b sh g)
    then have d: "updateBeneficiary e b sh g ws = Inr (ws', effs)" using Inr r by simp
    show ?thesis
      by (rule frozen_case [OF d, where s = "msg_sender e"])
         (use sender_keyed_other(7) [OF _ d] executed_mutator_fails(5) [where ws = ws and t = a and e = e, OF assms] in simp_all)
  next
    case (RemoveBeneficiary b)
    then have d: "removeBeneficiary e b ws = Inr (ws', effs)" using Inr r by simp
    show ?thesis
      by (rule frozen_case [OF d, where s = "msg_sender e"])
         (use sender_keyed_other(8) [OF _ d] executed_mutator_fails(6) [where ws = ws and t = a and e = e, OF assms] in simp_all)
  next
    case DepositLockedCall
    then have d: "depositLocked e ws = Inr (ws', effs)" using Inr r by simp
    show ?thesis
      by (rule frozen_case [OF d, where s = "msg_sender e"])
         (use sender_keyed_other(2) [OF _ d] executed_mutator_fails(1) [where ws = ws and t = a and e = e, OF assms] in simp_all)
  next
    case DepositFlexibleCall
    then have d: "depositFlexible e ws = Inr (ws', effs)" using Inr r by simp
    show ?thesis
      by (rule frozen_case [OF d, where s = "msg_sender e"])
         (use sender_keyed_other(3) [OF _ d] executed_mutator_fails(2) [where ws = ws and t = a and e = e, OF assms] in simp_all)
  next
    case (WithdrawFlexibleCall amount)
    then have d: "withdrawFlexible e amount ws = Inr (ws', effs)" using Inr r by simp
    show ?thesis
      by (rule frozen_case [OF d, where s = "msg_sender e"])
         (use sender_keyed_other(4) [OF _ d] executed_mutator_fails(3) [where ws = ws and t = a and e = e, OF assms] in simp_all)
  next
    case CheckInCall
    then have d: "checkIn e ws = Inr (ws', effs)" using Inr r by simp
    show ?thesis
      by (rule frozen_case [OF d, where s = "msg_sender e"])
         (use sender_keyed_other(5) [OF _ d] executed_mutator_fails(7) [where ws = ws and t = a and e = e, OF assms] in simp_all)
  qed
  with Inr r show ?thesis by (simp add: transact_def)
qed

lemma executed_frozen_run:
  "testator (ws a) \<noteq> 0 \<Longrightarrow> executed (ws a) \<Longrightarrow> run txs ws a = ws a"
proof (induction txs ws rule: run.induct)
  case (1 ws)
  show ?case by simp
next
  case (2 e c txs ws)
  have "transact e c ws a = ws a" using executed_frozen 2(2,3) by simp
  with 2 show ?case by simp
qed

text \<open>
  Claim C5 (executed is terminal). After a successful \<open>executeWill\<close> on the will of
  \<open>t\<close> both vaults are 0 and \<open>executed\<close> is true. Every later \<open>depositLocked\<close>,
  \<open>depositFlexible\<close>, \<open>withdrawFlexible\<close>, \<open>addBeneficiary\<close>, \<open>updateBeneficiary\<close>,
  \<open>removeBeneficiary\<close> and \<open>checkIn\<close> of the testator fails and leaves the storage as
  it was; the failure is "Will already executed" for the two deposits, and for the
  other five (which are not payable) when the call carries no value, a call with value
  being rejected without data before the modifier runs. After any sequence of calls by
  any callers the will of \<open>t\<close> is the same record, still executed.
\<close>

theorem executed_is_terminal:
  assumes "executeWill e t ws = Inr (ws', effs)"
  shows "lockedVault (ws' t) = 0 \<and> flexibleVault (ws' t) = 0 \<and> executed (ws' t) \<and>
    (\<forall>e' c. msg_sender e' = t \<and> c \<in> set (mutators b sh g amount) \<longrightarrow>
       (\<exists>err. dispatch e' c ws' = Inl err) \<and> transact e' c ws' = ws' \<and>
       (msg_value e' = 0 \<or> c = DepositLockedCall \<or> c = DepositFlexibleCall \<longrightarrow>
          dispatch e' c ws' = Inl (Revert ''Will already executed'')) \<and>
       (msg_value e' \<noteq> 0 \<and> c \<noteq> DepositLockedCall \<and> c \<noteq> DepositFlexibleCall \<longrightarrow>
          dispatch e' c ws' = Inl RevertNoData)) \<and>
    (\<forall>txs. run txs ws' t = ws' t \<and> executed (run txs ws' t))"
proof -
  note r = executeWill_Inr [OF assms]
  have ex: "testator (ws' t) \<noteq> 0" "executed (ws' t)" using r(1,8) by simp_all
  have v: "lockedVault (ws' t) = 0" "flexibleVault (ws' t) = 0" using r(8) by simp_all
  have fails: "\<exists>err. dispatch e' c ws' = Inl err"
    if "msg_sender e' = t" "c \<in> set (mutators b sh g amount)" for e' c
    using that executed_mutator_fails [where ws = ws' and t = t and e = e', OF ex that(1)]
    by (auto simp: mutators_def)
  have same: "transact e' c ws' = ws'"
    if "msg_sender e' = t" "c \<in> set (mutators b sh g amount)" for e' c
    using fails [OF that] by (auto simp: transact_def)
  have msg: "dispatch e' c ws' = Inl (Revert ''Will already executed'')"
    if "msg_sender e' = t" "c \<in> set (mutators b sh g amount)"
      "msg_value e' = 0 \<or> c = DepositLockedCall \<or> c = DepositFlexibleCall" for e' c
  proof (cases "c = DepositLockedCall \<or> c = DepositFlexibleCall")
    case True
    then show ?thesis
      using executed_deposit_fails [where ws = ws' and t = t and e = e', OF ex that(1)]
      by auto
  next
    case False
    with that(3) have "msg_value e' = 0" by simp
    from executed_call_fails [where ws = ws' and t = t and e = e', OF ex that(1) this]
    show ?thesis using that(2) False by (auto simp: mutators_def)
  qed
  have nodata: "dispatch e' c ws' = Inl RevertNoData"
    if "c \<in> set (mutators b sh g amount)"
      "msg_value e' \<noteq> 0 \<and> c \<noteq> DepositLockedCall \<and> c \<noteq> DepositFlexibleCall" for e' c
    using that value_call_fails [of e', where ws = ws'] by (auto simp: mutators_def)
  have "run txs ws' t = ws' t \<and> executed (run txs ws' t)" for txs
    using executed_frozen_run [where ws = ws' and a = t, OF ex] ex(2) by simp
  with v ex(2) fails same msg nodata show ?thesis by blast
qed

theorem executed_is_terminal_witness:
  "lockedVault (scenario_executed 10) = 0 \<and> flexibleVault (scenario_executed 10) = 0 \<and>
   executed (scenario_executed 10) \<and>
   depositLocked (scenario_env 10 7 1703196900) scenario_executed =
     Inl (Revert ''Will already executed'') \<and>
   checkIn (scenario_env 10 0 1703196900) scenario_executed =
     Inl (Revert ''Will already executed'') \<and>
   checkIn (scenario_env 10 7 1703196900) scenario_executed = Inl RevertNoData \<and>
   transact (scenario_env 10 0 1703196900) (AddBeneficiary 13 5 False) scenario_executed =
     scenario_executed \<and>
   executed (run [(scenario_env 10 0 1703196900, CheckInCall),
                  (scenario_env 12 0 1703196901, ExecuteWill 10)] scenario_executed 10)"
proof -
  have now: "(1700000000::nat) + 2592000 + 604800 < 1703196801 \<and> 1703196801 \<le> UINT256_MAX"
    by (simp add: small_le_UINT256_MAX)
  have "\<exists>ws' effs. executeWill (scenario_env 11 0 1703196801) 10 scenario_wills = Inr (ws', effs)"
    using now scenario_roles(3)
    by (intro executeWill_success)
       (simp_all add: scenario_at_testator scenario_facts scenario_env_simps small_le_UINT256_MAX)
  then obtain ws' effs where
    ex: "executeWill (scenario_env 11 0 1703196801) 10 scenario_wills = Inr (ws', effs)"
    by blast
  then have eq: "scenario_executed = ws'"
    by (simp add: scenario_executed_def transact_def)
  note T = executed_is_terminal [OF ex, of 13 5 False 0, unfolded eq [symmetric]]
  have s: "msg_sender (scenario_env 10 v ts) = 10" "msg_value (scenario_env 10 v ts) = v" for v ts
    by (simp_all add: scenario_env_simps)
  from T have A: "transact e' c scenario_executed = scenario_executed \<and>
      (msg_value e' = 0 \<or> c = DepositLockedCall \<or> c = DepositFlexibleCall \<longrightarrow>
         dispatch e' c scenario_executed = Inl (Revert ''Will already executed'')) \<and>
      (msg_value e' \<noteq> 0 \<and> c \<noteq> DepositLockedCall \<and> c \<noteq> DepositFlexibleCall \<longrightarrow>
         dispatch e' c scenario_executed = Inl RevertNoData)"
    if "msg_sender e' = 10" "c \<in> set (mutators 13 5 False 0)" for e' c
    using that by blast
  have "depositLocked (scenario_env 10 7 1703196900) scenario_executed =
       Inl (Revert ''Will already executed'')"
    using A [of "scenario_env 10 7 1703196900" DepositLockedCall] s
    by (simp add: mutators_def)
  moreover have "checkIn (scenario_env 10 0 1703196900) scenario_executed =
       Inl (Revert ''Will already executed'')"
    using A [of "scenario_env 10 0 1703196900" CheckInCall] s
    by (simp add: mutators_def)
  moreover have "checkIn (scenario_env 10 7 1703196900) scenario_executed = Inl RevertNoData"
    using A [of "scenario_env 10 7 1703196900" CheckInCall] s
    by (simp add: mutators_def)
  moreover have
    "transact (scenario_env 10 0 1703196900) (AddBeneficiary 13 5 False) scenario_executed =
       scenario_executed"
    using A [of "scenario_env 10 0 1703196900" "AddBeneficiary 13 5 False"] s
    by (simp add: mutators_def)
  moreover from T have "executed (run [(scenario_env 10 0 1703196900, CheckInCall),
                  (scenario_env 12 0 1703196901, ExecuteWill 10)] scenario_executed 10)"
    by blast
  ultimately show ?thesis using T by simp
qed

text \<open>
  Claim C6 (share-sum invariant, atomic failure). In every reachable state the shares
  of every will sum to at most 100. An \<open>addBeneficiary\<close> with current total + share
  above 100, and an \<open>updateBeneficiary\<close> with total - old share + new share above 100,
  never succeeds and leaves the whole storage unchanged; the failure is "Total shares
  cannot exceed 100%" whenever the checks the source makes before it pass: the call
  carries no value (the functions are not payable), the will exists and is not
  executed, the share is valid, and the beneficiary and guardian checks hold.
\<close>

theorem share_sum_invariant:
  assumes "reachable ws"
  shows "totalShares (ws t) \<le> 100 \<and>
    (totalShares (ws (msg_sender e)) + sh > 100 \<longrightarrow>
       (\<exists>err. addBeneficiary e b sh g ws = Inl err) \<and>
       transact e (AddBeneficiary b sh g) ws = ws \<and>
       (msg_value e = 0 \<and>
        testator (ws (msg_sender e)) \<noteq> 0 \<and> \<not> executed (ws (msg_sender e)) \<and>
        0 < sh \<and> sh \<le> 100 \<and> b \<noteq> 0 \<and> b \<noteq> msg_sender e \<and>
        \<not> isBeneficiaryOfWill ws b (msg_sender e) \<and>
        \<not> (g \<and> hasGuardian ws (msg_sender e)) \<longrightarrow>
          addBeneficiary e b sh g ws = Inl (Revert ''Total shares cannot exceed 100%''))) \<and>
    (\<forall>i. getBeneficiaryIndex ws b (msg_sender e) = Inr i \<and>
         totalShares (ws (msg_sender e)) - share (beneficiaries (ws (msg_sender e)) ! i) + sh
           > 100 \<longrightarrow>
       (\<exists>err. updateBeneficiary e b sh g ws = Inl err) \<and>
       transact e (UpdateBeneficiary b sh g) ws = ws \<and>
       (msg_value e = 0 \<and>
        testator (ws (msg_sender e)) \<noteq> 0 \<and> \<not> executed (ws (msg_sender e)) \<and>
        0 < sh \<and> sh \<le> 100 \<and>
        \<not> (g \<and> \<not> isGuardian (beneficiaries (ws (msg_sender e)) ! i) \<and>
           hasGuardian ws (msg_sender e)) \<longrightarrow>
          updateBeneficiary e b sh g ws = Inl (Revert ''Total shares cannot exceed 100%'')))"
proof (intro conjI impI allI)
  show "totalShares (ws t) \<le> 100"
    using reachable_will_inv [OF assms, of t] by (simp add: will_inv_def)
next
  assume over: "100 < totalShares (ws (msg_sender e)) + sh"
  show fails: "\<exists>err. addBeneficiary e b sh g ws = Inl err"
  proof (cases "addBeneficiary e b sh g ws")
    case (Inl err)
    then show ?thesis by blast
  next
    case (Inr r)
    obtain ws' effs where "r = (ws', effs)" by (cases r)
    with Inr addBeneficiary_Inr [of e b sh g ws ws' effs] over show ?thesis by simp
  qed
  then show "transact e (AddBeneficiary b sh g) ws = ws"
    by (auto simp: transact_def)
next
  assume over: "100 < totalShares (ws (msg_sender e)) + sh"
    and guards: "msg_value e = 0 \<and>
        testator (ws (msg_sender e)) \<noteq> 0 \<and> \<not> executed (ws (msg_sender e)) \<and>
        0 < sh \<and> sh \<le> 100 \<and> b \<noteq> 0 \<and> b \<noteq> msg_sender e \<and>
        \<not> isBeneficiaryOfWill ws b (msg_sender e) \<and>
        \<not> (g \<and> hasGuardian ws (msg_sender e))"
  have le: "totalShares (ws (msg_sender e)) \<le> 100"
    using reachable_will_inv [OF assms, of "msg_sender e"] by (simp add: will_inv_def)
  have "totalShares (ws (msg_sender e)) + sh \<le> UINT256_MAX"
    using le guards by (intro small_le_UINT256_MAX) simp
  moreover have "totalShares (ws (msg_sender e)) \<le> UINT256_MAX"
    using le by (intro small_le_UINT256_MAX) simp
  ultimately show "addBeneficiary e b sh g ws = Inl (Revert ''Total shares cannot exceed 100%'')"
    using over guards
    by (cases g) (simp_all add: addBeneficiary_def require_def nonpayable_def getTotalShares_eq checked_add_def)
next
  fix i
  assume h: "getBeneficiaryIndex ws b (msg_sender e) = Inr i \<and>
         100 < totalShares (ws (msg_sender e)) - share (beneficiaries (ws (msg_sender e)) ! i) + sh"
  show fails: "\<exists>err. updateBeneficiary e b sh g ws = Inl err"
  proof (cases "updateBeneficiary e b sh g ws")
    case (Inl err)
    then show ?thesis by blast
  next
    case (Inr r)
    obtain ws' effs where r: "r = (ws', effs)" by (cases r)
    from Inr r h have False
      by (auto simp: updateBeneficiary_def require_def nonpayable_def Let_def getTotalShares_eq
                     checked_add_def checked_sub_def
               split: if_splits)
    then show ?thesis ..
  qed
  then show "transact e (UpdateBeneficiary b sh g) ws = ws"
    by (auto simp: transact_def)
next
  fix i
  assume h: "getBeneficiaryIndex ws b (msg_sender e) = Inr i \<and>
         100 < totalShares (ws (msg_sender e)) - share (beneficiaries (ws (msg_sender e)) ! i) + sh"
    and guards: "msg_value e = 0 \<and>
        testator (ws (msg_sender e)) \<noteq> 0 \<and> \<not> executed (ws (msg_sender e)) \<and>
        0 < sh \<and> sh \<le> 100 \<and>
        \<not> (g \<and> \<not> isGuardian (beneficiaries (ws (msg_sender e)) ! i) \<and>
           hasGuardian ws (msg_sender e))"
  have le: "totalShares (ws (msg_sender e)) \<le> 100"
    using reachable_will_inv [OF assms, of "msg_sender e"] by (simp add: will_inv_def)
  note ir = getBeneficiaryIndex_Inr [of ws b "msg_sender e" i]
  have mem: "isBeneficiaryOfWill ws b (msg_sender e)"
    using ir h by (auto simp: isBeneficiaryOfWill_def isBeneficiaryIn_iff)
  have sub: "share (beneficiaries (ws (msg_sender e)) ! i) \<le> totalShares (ws (msg_sender e))"
    using ir h by (intro share_le_totalShares) simp
  have shle: "sh \<le> 100" using guards by simp
  have "totalShares (ws (msg_sender e)) - share (beneficiaries (ws (msg_sender e)) ! i) + sh
          \<le> UINT256_MAX"
    using le shle by (intro small_le_UINT256_MAX) linarith
  moreover have "totalShares (ws (msg_sender e)) \<le> UINT256_MAX"
    using le by (intro small_le_UINT256_MAX) simp
  ultimately show
    "updateBeneficiary e b sh g ws = Inl (Revert ''Total shares cannot exceed 100%'')"
    using h guards mem sub
    by (auto simp: updateBeneficiary_def require_def nonpayable_def Let_def getTotalShares_eq
                   checked_add_def checked_sub_def)
qed

lemma scenario_index: "getBeneficiaryIndex scenario_wills 11 10 = Inr 0"
  by (simp add: getBeneficiaryIndex_def scenario_at_testator scenario_facts)

lemma scenario_hasGuardian: "hasGuardian scenario_wills 10"
  by (simp add: hasGuardian_def scenario_at_testator scenario_facts)

theorem share_sum_invariant_witness:
  "totalShares (scenario_wills 10) \<le> 100 \<and>
   addBeneficiary (scenario_env 10 0 1700000500) 13 5 False scenario_wills =
     Inl (Revert ''Total shares cannot exceed 100%'') \<and>
   transact (scenario_env 10 0 1700000500) (AddBeneficiary 13 5 False) scenario_wills =
     scenario_wills \<and>
   updateBeneficiary (scenario_env 10 0 1700000500) 11 61 False scenario_wills =
     Inl (Revert ''Total shares cannot exceed 100%'') \<and>
   transact (scenario_env 10 0 1700000500) (UpdateBeneficiary 11 61 False) scenario_wills =
     scenario_wills"
proof -
  note T = share_sum_invariant [OF reachable_scenario, where t = 10
      and e = "scenario_env 10 0 1700000500"]
  have nb: "\<not> isBeneficiaryOfWill scenario_wills 13 10"
    by (simp add: isBeneficiaryOfWill_def scenario_at_testator scenario_facts)
  show ?thesis
    using T [where b = 13 and sh = 5 and g = False]
      T [where b = 11 and sh = 61 and g = False] nb scenario_index
    by (simp add: scenario_env_simps scenario_at_testator scenario_facts)
qed

lemma dispatch_lockedVault:
  assumes "dispatch e c ws = Inr (ws', effs)" "\<forall>t. c \<noteq> ExecuteWill t"
  shows "lockedVault (ws a) \<le> lockedVault (ws' a)"
proof (cases c)
  case (CreateWill cip dp)
  with assms show ?thesis
    by (auto simp: createWill_def require_def nonpayable_def split: if_splits)
next
  case (ExecuteWill t)
  with assms show ?thesis by simp
next
  case (AddBeneficiary b sh g)
  with assms addBeneficiary_Inr [of e b sh g ws ws' effs] show ?thesis by simp
next
  case (UpdateBeneficiary b sh g)
  with assms have "updateBeneficiary e b sh g ws = Inr (ws', effs)" by simp
  from updateBeneficiary_Inr [OF this] obtain i where
    "ws' = ws(msg_sender e := (ws (msg_sender e))
            \<lparr>beneficiaries := (beneficiaries (ws (msg_sender e)))
               [i := (beneficiaries (ws (msg_sender e)) ! i)\<lparr>share := sh, isGuardian := g\<rparr>]\<rparr>)"
    by blast
  then show ?thesis by simp
next
  case (RemoveBeneficiary b)
  with assms have "removeBeneficiary e b ws = Inr (ws', effs)" by simp
  from removeBeneficiary_Inr [OF this] obtain i where
    "ws' = ws(msg_sender e := (ws (msg_sender e))
            \<lparr>beneficiaries := butlast ((beneficiaries (ws (msg_sender e)))
               [i := beneficiaries (ws (msg_sender e)) !
                       (length (beneficiaries (ws (msg_sender e))) - 1)])\<rparr>)"
    by blast
  then show ?thesis by simp
next
  case DepositLockedCall
  with assms show ?thesis
    by (auto simp: depositLocked_def require_def checked_add_def split: if_splits)
next
  case DepositFlexibleCall
  with assms show ?thesis
    by (auto simp: depositFlexible_def require_def checked_add_def split: if_splits)
next
  case (WithdrawFlexibleCall amount)
  with assms show ?thesis
    by (auto simp: withdrawFlexible_def require_def nonpayable_def checked_sub_def split: if_splits)
next
  case CheckInCall
  with assms show ?thesis
    by (auto simp: checkIn_def require_def nonpayable_def split: if_splits)
qed

lemma transact_lockedVault:
  assumes "\<forall>t. c \<noteq> ExecuteWill t"
  shows "lockedVault (ws a) \<le> lockedVault (transact e c ws a)"
proof (cases "dispatch e c ws")
  case (Inl err)
  then show ?thesis by (simp add: transact_def)
next
  case (Inr r)
  obtain ws' effs where r: "r = (ws', effs)" by (cases r)
  with Inr dispatch_lockedVault [OF _ assms, of e ws ws' effs a] show ?thesis
    by (simp add: transact_def)
qed

lemma transact_executeWill_lockedVault:
  "lockedVault (transact e (ExecuteWill t) ws a) < lockedVault (ws a) \<Longrightarrow>
     a = t \<and> lockedVault (transact e (ExecuteWill t) ws a) = 0"
proof (cases "executeWill e t ws")
  case (Inl err)
  assume "lockedVault (transact e (ExecuteWill t) ws a) < lockedVault (ws a)"
  with Inl show ?thesis by (simp add: transact_def)
next
  case (Inr r)
  assume lt: "lockedVault (transact e (ExecuteWill t) ws a) < lockedVault (ws a)"
  obtain ws' effs where r: "r = (ws', effs)" by (cases r)
  from Inr r executeWill_Inr(8) [of e t ws ws' effs]
  have "transact e (ExecuteWill t) ws =
      ws(t := (ws t)\<lparr>executed := True, lockedVault := 0, flexibleVault := 0\<rparr>)"
    by (simp add: transact_def)
  with lt show ?thesis by (cases "a = t") simp_all
qed

text \<open>
  Claim C7 (locked-vault guarantee). \<open>withdrawFlexible(amount)\<close> never succeeds when
  \<open>amount\<close> exceeds the flexible balance: for an existing, non-executed will a call
  without value fails with "Insufficient flexible vault balance", and a call with value
  is rejected without data (the function is not payable). A successful one changes the
  flexible balance of the caller's will only, by exactly \<open>amount\<close>; no call other than
  \<open>executeWill\<close> lowers any locked balance, and a call that lowers the locked balance of
  \<open>a\<close> is \<open>executeWill(a)\<close>, which sets it to 0.
\<close>

theorem locked_vault_guarantee:
  "(flexibleVault (ws (msg_sender e)) < amount \<longrightarrow>
      (\<exists>err. withdrawFlexible e amount ws = Inl err) \<and>
      (msg_value e = 0 \<and>
       testator (ws (msg_sender e)) \<noteq> 0 \<and> \<not> executed (ws (msg_sender e)) \<longrightarrow>
         withdrawFlexible e amount ws = Inl (Revert ''Insufficient flexible vault balance'')) \<and>
      (msg_value e \<noteq> 0 \<longrightarrow> withdrawFlexible e amount ws = Inl RevertNoData)) \<and>
   (withdrawFlexible e amount ws = Inr (ws', effs) \<longrightarrow>
      amount \<le> flexibleVault (ws (msg_sender e)) \<and>
      ws' = ws(msg_sender e := (ws (msg_sender e))
               \<lparr>flexibleVault := flexibleVault (ws (msg_sender e)) - amount\<rparr>)) \<and>
   ((\<forall>t. c \<noteq> ExecuteWill t) \<longrightarrow> lockedVault (ws a) \<le> lockedVault (transact e c ws a)) \<and>
   (lockedVault (transact e c ws a) < lockedVault (ws a) \<longrightarrow>
      c = ExecuteWill a \<and> lockedVault (transact e c ws a) = 0)"
proof (intro conjI impI)
  assume "flexibleVault (ws (msg_sender e)) < amount"
  then show "\<exists>err. withdrawFlexible e amount ws = Inl err"
    by (simp add: withdrawFlexible_def require_def nonpayable_def)
next
  assume "flexibleVault (ws (msg_sender e)) < amount"
    "msg_value e = 0 \<and>
     testator (ws (msg_sender e)) \<noteq> 0 \<and> \<not> executed (ws (msg_sender e))"
  then show "withdrawFlexible e amount ws = Inl (Revert ''Insufficient flexible vault balance'')"
    by (simp add: withdrawFlexible_def require_def nonpayable_def)
next
  assume "msg_value e \<noteq> 0"
  then show "withdrawFlexible e amount ws = Inl RevertNoData"
    by (simp add: withdrawFlexible_def nonpayable_def)
next
  assume w: "withdrawFlexible e amount ws = Inr (ws', effs)"
  then show "amount \<le> flexibleVault (ws (msg_sender e))"
    by (auto simp: withdrawFlexible_def require_def nonpayable_def split: if_splits)
  from w show "ws' = ws(msg_sender e := (ws (msg_sender e))
               \<lparr>flexibleVault := flexibleVault (ws (msg_sender e)) - amount\<rparr>)"
    by (auto simp: withdrawFlexible_def require_def nonpayable_def checked_sub_def split: if_splits)
next
  assume "\<forall>t. c \<noteq> ExecuteWill t"
  then show "lockedVault (ws a) \<le> lockedVault (transact e c ws a)"
    by (rule transact_lockedVault)
next
  assume lt: "lockedVault (transact e c ws a) < lockedVault (ws a)"
  have "\<exists>t. c = ExecuteWill t"
  proof (rule ccontr)
    assume "\<not> (\<exists>t. c = ExecuteWill t)"
    then have "lockedVault (ws a) \<le> lockedVault (transact e c ws a)"
      by (intro transact_lockedVault) simp
    with lt show False by simp
  qed
  then obtain t where c: "c = ExecuteWill t" by blast
  from lt c have "lockedVault (transact e (ExecuteWill t) ws a) < lockedVault (ws a)" by simp
  then have "a = t \<and> lockedVault (transact e (ExecuteWill t) ws a) = 0"
    by (rule transact_executeWill_lockedVault)
  then have "a = t" "lockedVault (transact e (ExecuteWill t) ws a) = 0" by blast+
  with c show "c = ExecuteWill a" "lockedVault (transact e c ws a) = 0" by simp_all
qed

theorem locked_vault_guarantee_witness:
  "withdrawFlexible (scenario_env 10 0 1700000500) 6 scenario_wills =
     Inl (Revert ''Insufficient flexible vault balance'') \<and>
   withdrawFlexible (scenario_env 10 1 1700000500) 6 scenario_wills = Inl RevertNoData \<and>
   lockedVault (scenario_wills 10) = 10 \<and>
   lockedVault (transact (scenario_env 10 0 1700000500) (WithdrawFlexibleCall 3)
                  scenario_wills 10) \<ge> 10 \<and>
   flexibleVault (transact (scenario_env 10 0 1700000500) (WithdrawFlexibleCall 3)
                  scenario_wills 10) = 2 \<and>
   lockedVault (transact (scenario_env 11 0 1703196801) (ExecuteWill 10) scenario_wills 10) = 0"
proof -
  have now: "(1700000000::nat) + 2592000 + 604800 < 1703196801 \<and> 1703196801 \<le> UINT256_MAX"
    by (simp add: small_le_UINT256_MAX)
  have "\<exists>ws' effs. executeWill (scenario_env 11 0 1703196801) 10 scenario_wills = Inr (ws', effs)"
    using now scenario_roles(3)
    by (intro executeWill_success)
       (simp_all add: scenario_at_testator scenario_facts scenario_env_simps small_le_UINT256_MAX)
  then obtain ws' effs where
    ex: "executeWill (scenario_env 11 0 1703196801) 10 scenario_wills = Inr (ws', effs)"
    by blast
  have lower: "lockedVault (transact (scenario_env 11 0 1703196801) (ExecuteWill 10)
      scenario_wills 10) < lockedVault (scenario_wills 10)"
    using ex executeWill_Inr(8) [OF ex]
    by (simp add: transact_def scenario_at_testator scenario_will_def)
  from locked_vault_guarantee [where e = "scenario_env 11 0 1703196801"
      and ws = scenario_wills and a = 10 and c = "ExecuteWill 10"] lower
  have x: "lockedVault (transact (scenario_env 11 0 1703196801) (ExecuteWill 10)
      scenario_wills 10) = 0"
    by blast
  have w: "withdrawFlexible (scenario_env 10 0 1700000500) 3 scenario_wills =
      Inr (scenario_wills(10 := scenario_will\<lparr>flexibleVault := 2\<rparr>),
           [Transfer 10 3, Emit (WithdrawFlexible 10 3)])"
    by (simp add: withdrawFlexible_def require_def nonpayable_def checked_sub_def scenario_env_simps
                  scenario_at_testator scenario_will_def)
  note T = locked_vault_guarantee [where e = "scenario_env 10 0 1700000500"
      and ws = scenario_wills and a = 10]
  show ?thesis
    using T [where amount = 6 and c = "WithdrawFlexibleCall 3"] w x
      locked_vault_guarantee [where e = "scenario_env 10 1 1700000500"
        and ws = scenario_wills and amount = 6]
    by (simp add: scenario_env_simps scenario_at_testator scenario_will_def transact_def)
qed

text \<open>
  Claim C8 (guardian uniqueness). In every reachable state each will has at most one
  beneficiary entry with the guardian flag. \<open>addBeneficiary\<close> with the flag set never
  succeeds while a guardian exists, and \<open>updateBeneficiary\<close> that promotes an entry
  without the flag never succeeds while another guardian exists; the failure is
  "Guardian already exists" whenever the checks the source makes before it pass: the
  call carries no value (the functions are not payable), the will exists and is not
  executed, the share is valid and, for \<open>addBeneficiary\<close>, the address checks hold.
\<close>

theorem guardian_uniqueness:
  assumes "reachable ws"
  shows "guardianCount (ws t) \<le> 1 \<and>
    (hasGuardian ws (msg_sender e) \<longrightarrow>
       (\<exists>err. addBeneficiary e b sh True ws = Inl err) \<and>
       (msg_value e = 0 \<and>
        testator (ws (msg_sender e)) \<noteq> 0 \<and> \<not> executed (ws (msg_sender e)) \<and>
        0 < sh \<and> sh \<le> 100 \<and> b \<noteq> 0 \<and> b \<noteq> msg_sender e \<and>
        \<not> isBeneficiaryOfWill ws b (msg_sender e) \<longrightarrow>
          addBeneficiary e b sh True ws = Inl (Revert ''Guardian already exists''))) \<and>
    (\<forall>i. getBeneficiaryIndex ws b (msg_sender e) = Inr i \<and>
         \<not> isGuardian (beneficiaries (ws (msg_sender e)) ! i) \<and>
         hasGuardian ws (msg_sender e) \<longrightarrow>
       (\<exists>err. updateBeneficiary e b sh True ws = Inl err) \<and>
       (msg_value e = 0 \<and>
        testator (ws (msg_sender e)) \<noteq> 0 \<and> \<not> executed (ws (msg_sender e)) \<and>
        0 < sh \<and> sh \<le> 100 \<longrightarrow>
          updateBeneficiary e b sh True ws = Inl (Revert ''Guardian already exists'')))"
proof (intro conjI impI allI)
  show "guardianCount (ws t) \<le> 1"
    using reachable_will_inv [OF assms, of t] by (simp add: will_inv_def)
next
  assume hg: "hasGuardian ws (msg_sender e)"
  show "\<exists>err. addBeneficiary e b sh True ws = Inl err"
  proof (cases "addBeneficiary e b sh True ws")
    case (Inl err)
    then show ?thesis by blast
  next
    case (Inr r)
    obtain ws' effs where "r = (ws', effs)" by (cases r)
    with Inr addBeneficiary_Inr [of e b sh True ws ws' effs] hg show ?thesis
      by (simp add: hasGuardian_def)
  qed
next
  assume "hasGuardian ws (msg_sender e)"
    "msg_value e = 0 \<and>
     testator (ws (msg_sender e)) \<noteq> 0 \<and> \<not> executed (ws (msg_sender e)) \<and>
        0 < sh \<and> sh \<le> 100 \<and> b \<noteq> 0 \<and> b \<noteq> msg_sender e \<and>
        \<not> isBeneficiaryOfWill ws b (msg_sender e)"
  then show "addBeneficiary e b sh True ws = Inl (Revert ''Guardian already exists'')"
    by (simp add: addBeneficiary_def require_def nonpayable_def)
next
  fix i
  assume h: "getBeneficiaryIndex ws b (msg_sender e) = Inr i \<and>
         \<not> isGuardian (beneficiaries (ws (msg_sender e)) ! i) \<and>
         hasGuardian ws (msg_sender e)"
  show "\<exists>err. updateBeneficiary e b sh True ws = Inl err"
  proof (cases "updateBeneficiary e b sh True ws")
    case (Inl err)
    then show ?thesis by blast
  next
    case (Inr r)
    obtain ws' effs where r: "r = (ws', effs)" by (cases r)
    from Inr r h have False
      by (auto simp: updateBeneficiary_def require_def nonpayable_def Let_def split: if_splits)
    then show ?thesis ..
  qed
next
  fix i
  assume h: "getBeneficiaryIndex ws b (msg_sender e) = Inr i \<and>
         \<not> isGuardian (beneficiaries (ws (msg_sender e)) ! i) \<and>
         hasGuardian ws (msg_sender e)"
    and guards: "msg_value e = 0 \<and>
        testator (ws (msg_sender e)) \<noteq> 0 \<and> \<not> executed (ws (msg_sender e)) \<and>
        0 < sh \<and> sh \<le> 100"
  note ir = getBeneficiaryIndex_Inr [of ws b "msg_sender e" i]
  have mem: "isBeneficiaryOfWill ws b (msg_sender e)"
    using ir h by (auto simp: isBeneficiaryOfWill_def isBeneficiaryIn_iff)
  show "updateBeneficiary e b sh True ws = Inl (Revert ''Guardian already exists'')"
    using h guards mem
    by (simp add: updateBeneficiary_def require_def nonpayable_def Let_def)
qed

theorem guardian_uniqueness_witness:
  "guardianCount (scenario_wills 10) \<le> 1 \<and>
   addBeneficiary (scenario_env 10 0 1700000500) 13 5 True scenario_wills =
     Inl (Revert ''Guardian already exists'') \<and>
   updateBeneficiary (scenario_env 10 0 1700000500) 11 60 True scenario_wills =
     Inl (Revert ''Guardian already exists'')"
proof -
  note T = guardian_uniqueness [OF reachable_scenario, where t = 10
      and e = "scenario_env 10 0 1700000500"]
  have nb: "\<not> isBeneficiaryOfWill scenario_wills 13 10"
    by (simp add: isBeneficiaryOfWill_def scenario_at_testator scenario_facts)
  show ?thesis
    using T [where b = 13 and sh = 5] T [where b = 11 and sh = 60] nb scenario_index
      scenario_hasGuardian
    by (simp add: scenario_env_simps scenario_at_testator scenario_facts)
qed

subsection \<open>Re-entrant calls\<close>

lemma executeWill_split:
  "executeWill e t ws =
     (case executeWill_checks e t ws of
        Inl x \<Rightarrow> Inl x
      | Inr F \<Rightarrow>
         (case distribute e F (beneficiaries (ws t)) of
            Inl x \<Rightarrow> Inl x
          | Inr effs \<Rightarrow>
              Inr (ws(t := (ws t)\<lparr>executed := True, lockedVault := 0, flexibleVault := 0\<rparr>),
                   effs @ [Emit (WillExecuted t F)])))"
  by (simp add: executeWill_def executeWill_checks_def nonpayable_def require_def Let_def
           split: sum.splits)

lemma withdrawFlexible_split:
  "withdrawFlexible e amount ws =
     (case withdrawFlexible_checks e amount ws of
        Inl x \<Rightarrow> Inl x
      | Inr ws1 \<Rightarrow>
          require (call_succeeds e (msg_sender e) amount) ''Withdrawal failed''
            (Inr (ws1, [Transfer (msg_sender e) amount,
                        Emit (WithdrawFlexible (msg_sender e) amount)])))"
  by (simp add: withdrawFlexible_def withdrawFlexible_checks_def nonpayable_def require_def
           split: sum.splits)

lemma external_call_numeral:
  "external_call (numeral k) A depth e c st = external_call (Suc (pred_numeral k)) A depth e c st"
  by (simp add: numeral_eq_Suc)

lemma payout_loop_numeral:
  "payout_loop (numeral k) send t F i st = payout_loop (Suc (pred_numeral k)) send t F i st"
  by (simp add: numeral_eq_Suc)

lemma funded_chain_eq:
  "funded_chain =
     \<lparr>storage = initial_wills(10 := scenario_will, 20 := other_will), funds = 30\<rparr>"
  by (simp add: funded_chain_def funded_txs_def scenario_txs_def scenario_env_def
                transaction_def external_call_numeral credit_def
                createWill_def addBeneficiary_def depositLocked_def depositFlexible_def
                nonpayable_def
                require_def initial_wills_def zero_Will_def isBeneficiaryOfWill_def
                hasGuardian_def getTotalShares_def checked_add_def small_le_UINT256_MAX
                scenario_will_def other_will_def)

lemma scenario_checks:
  assumes "ws 10 = scenario_will" "msg_sender e = 11" "msg_value e = 0"
    "block_timestamp e = 1703196801"
  shows "executeWill_checks e 10 ws = Inr 15"
  using assms
  by (simp add: executeWill_checks_def nonpayable_def require_def Let_def
                scenario_will_def checked_add_def small_le_UINT256_MAX
                isBeneficiaryOfWill_def getTotalShares_def)

lemma scenario_beneficiaries:
  "beneficiaries scenario_will =
     [\<lparr>wallet = 11, share = 60, isGuardian = False\<rparr>, \<lparr>wallet = 12, share = 40, isGuardian = True\<rparr>]"
  by (simp add: scenario_will_def)

lemma send_plain:
  assumes "A r depth amount = ([], True)" "amount \<le> funds st"
  shows "send_value nested A depth e r amount st =
     Inr (Some (st\<lparr>funds := funds st - amount\<rparr>, [Transfer r amount]))"
  using assms by (simp add: send_value_def)

lemma payout_done:
  "\<not> i < length (beneficiaries (storage st t)) \<Longrightarrow>
     payout_loop (Suc n) send t F i st = Inr (st, [])"
  by simp

lemma payout_step:
  assumes "i < length (beneficiaries (storage st t))"
    "checked_mul F (share (beneficiaries (storage st t) ! i)) = Inr p" "0 < p div 100"
    "send (wallet (beneficiaries (storage st t) ! i)) (p div 100) st = Inr (Some (st1, effs))"
    "payout_loop n send t F (Suc i) st1 = Inr (st2, effs2)"
  shows "payout_loop (Suc n) send t F i st = Inr (st2, effs @ effs2)"
  using assms by simp

lemma scenario_payout:
  assumes bs: "beneficiaries (storage st 10) = beneficiaries scenario_will"
    and s1: "send 11 9 st = Inr (Some (st1, effs1))"
    and bs1: "beneficiaries (storage st1 10) = beneficiaries scenario_will"
    and s2: "send 12 6 st1 = Inr (Some (st2, effs2))"
    and bs2: "beneficiaries (storage st2 10) = beneficiaries scenario_will"
  shows "payout_loop (Suc (Suc (Suc n))) send 10 15 0 st = Inr (st2, effs1 @ effs2)"
proof -
  have m: "checked_mul 15 60 = Inr 900" "checked_mul 15 40 = Inr 600"
    by (simp_all add: checked_mul_def small_le_UINT256_MAX)
  have 3: "payout_loop (Suc n) send 10 15 (Suc (Suc 0)) st2 = Inr (st2, [])"
    by (rule payout_done) (simp add: bs2 scenario_beneficiaries)
  have "payout_loop (Suc (Suc n)) send 10 15 (Suc 0) st1 = Inr (st2, effs2 @ [])"
    by (rule payout_step [where p = 600, OF _ _ _ _ 3])
       (simp_all add: bs1 scenario_beneficiaries m s2)
  then have 2: "payout_loop (Suc (Suc n)) send 10 15 (Suc 0) st1 = Inr (st2, effs2)"
    by (simp only: append_Nil2)
  show ?thesis
    by (rule payout_step [where p = 900, OF _ _ _ _ 2])
       (simp_all add: bs scenario_beneficiaries m s1)
qed

lemma credit_no_value: "msg_value e = 0 \<Longrightarrow> credit e st = st"
  by (simp add: credit_def)

text \<open>
  The execution of the scenario's will by B at any nesting depth at which the accounts
  paid are plain: 9 to B, 6 to G.
\<close>

lemma plain_execution:
  assumes w: "storage st 10 = scenario_will" and f: "15 \<le> funds st"
    and e: "msg_sender e = 11" "msg_value e = 0" "block_timestamp e = 1703196801"
    and A: "\<And>a v. A a depth v = ([], True)"
  shows "external_call (Suc (Suc (Suc (Suc n)))) A depth e (ExecuteWill 10) st =
     Inr (st\<lparr>funds := funds st - 15,
              storage := (storage st)
                (10 := scenario_will\<lparr>executed := True, lockedVault := 0, flexibleVault := 0\<rparr>)\<rparr>,
          [Transfer 11 9, Transfer 12 6, Emit (WillExecuted 10 15)])"
proof -
  let ?send = "send_value (external_call (Suc (Suc (Suc n))) A) A depth e"
  let ?st1 = "st\<lparr>funds := funds st - 9\<rparr>"
  let ?st2 = "st\<lparr>funds := funds st - 15\<rparr>"
  have c: "executeWill_checks e 10 (storage st) = Inr 15"
    by (rule scenario_checks [where ws = "storage st" and e = e, OF w e])
  have s1: "?send 11 9 st = Inr (Some (?st1, [Transfer 11 9]))"
    using f by (intro send_plain A) simp
  have "?send 12 6 ?st1 = Inr (Some (?st1\<lparr>funds := funds ?st1 - 6\<rparr>, [Transfer 12 6]))"
    using f by (intro send_plain A) simp
  then have s2: "?send 12 6 ?st1 = Inr (Some (?st2, [Transfer 12 6]))"
    using f by simp
  have l: "payout_loop (Suc (Suc (Suc n))) ?send 10 15 0 st =
      Inr (?st2, [Transfer 11 9] @ [Transfer 12 6])"
    by (rule scenario_payout [OF _ s1 _ s2]) (simp_all add: w)
  show ?thesis
    by (simp add: credit_no_value [OF e(2)] c l w del: payout_loop.simps)
qed

lemma funded_chain_facts:
  "storage funded_chain 10 = scenario_will" "storage funded_chain 20 = other_will"
  "funds funded_chain = 30"
  by (simp_all add: funded_chain_eq)

lemma scenario_env_B:
  "msg_sender (scenario_env 11 0 1703196801) = 11" "msg_value (scenario_env 11 0 1703196801) = 0"
  "block_timestamp (scenario_env 11 0 1703196801) = 1703196801"
  by (simp_all add: scenario_env_simps)

text \<open>
  The same call when B calls \<open>executeWill(10)\<close> again while it is being paid: the nested
  call passes \<open>willNotExecuted\<close>, pays B and G, and marks the will executed; the outer
  loop then pays G, and its writes mark the will executed once more.
\<close>

lemma reentered_execution:
  "external_call (Suc (Suc (Suc (Suc (Suc (Suc (Suc (Suc n)))))))) reentering_B 0
       (scenario_env 11 0 1703196801) (ExecuteWill 10) funded_chain =
     Inr (funded_chain\<lparr>funds := 0,
            storage := (storage funded_chain)
              (10 := scenario_will\<lparr>executed := True, lockedVault := 0, flexibleVault := 0\<rparr>)\<rparr>,
          [Transfer 11 9,
             Transfer 11 9, Transfer 12 6, Emit (WillExecuted 10 15),
           Transfer 12 6, Emit (WillExecuted 10 15)])"
proof -
  let ?e = "scenario_env 11 0 1703196801"
  let ?m = "Suc (Suc (Suc (Suc (Suc (Suc (Suc n))))))"
  let ?send = "send_value (external_call ?m reentering_B) reentering_B 0 ?e"
  let ?done = "scenario_will\<lparr>executed := True, lockedVault := 0, flexibleVault := 0\<rparr>"
  let ?st0 = "funded_chain\<lparr>funds := 21\<rparr>"
  let ?st1 = "funded_chain\<lparr>funds := 6, storage := (storage funded_chain)(10 := ?done)\<rparr>"
  let ?st2 = "funded_chain\<lparr>funds := 0, storage := (storage funded_chain)(10 := ?done)\<rparr>"
  have c: "executeWill_checks ?e 10 (storage funded_chain) = Inr 15"
    by (rule scenario_checks [where ws = "storage funded_chain" and e = ?e,
          OF funded_chain_facts(1) scenario_env_B])
  have "external_call ?m reentering_B (Suc 0) (?e\<lparr>msg_sender := 11, msg_value := 0\<rparr>)
      (ExecuteWill 10) ?st0 =
     Inr (?st0\<lparr>funds := funds ?st0 - 15,
              storage := (storage ?st0)(10 := ?done)\<rparr>,
          [Transfer 11 9, Transfer 12 6, Emit (WillExecuted 10 15)])"
    by (rule plain_execution)
       (simp_all add: funded_chain_facts scenario_env_simps reentering_B_def)
  then have nested: "external_call ?m reentering_B (Suc 0)
      (?e\<lparr>msg_sender := 11, msg_value := 0\<rparr>) (ExecuteWill 10) ?st0 =
     Inr (?st1, [Transfer 11 9, Transfer 12 6, Emit (WillExecuted 10 15)])"
    by simp
  have s1: "?send 11 9 funded_chain =
      Inr (Some (?st1, [Transfer 11 9,
                        Transfer 11 9, Transfer 12 6, Emit (WillExecuted 10 15)]))"
    using nested by (simp add: send_value_def reentering_B_def funded_chain_facts)
  have "?send 12 6 ?st1 = Inr (Some (?st1\<lparr>funds := funds ?st1 - 6\<rparr>, [Transfer 12 6]))"
    by (rule send_plain) (simp_all add: reentering_B_def)
  then have s2: "?send 12 6 ?st1 = Inr (Some (?st2, [Transfer 12 6]))"
    by simp
  have l: "payout_loop ?m ?send 10 15 0 funded_chain =
      Inr (?st2, [Transfer 11 9, Transfer 11 9, Transfer 12 6, Emit (WillExecuted 10 15)] @
                 [Transfer 12 6])"
    by (rule scenario_payout [OF _ s1 _ s2]) (simp_all add: funded_chain_facts)
  show ?thesis
    by (simp add: credit_no_value scenario_env_simps c l del: payout_loop.simps)
qed

lemma external_call_executeWill_final:
  assumes "external_call n A depth e (ExecuteWill t) st = Inr (st1, effs)"
  shows "executed (storage st1 t) \<and> lockedVault (storage st1 t) = 0 \<and>
     flexibleVault (storage st1 t) = 0"
proof (cases n)
  case 0
  with assms show ?thesis by simp
next
  case (Suc m)
  with assms show ?thesis
    by (auto simp del: payout_loop.simps split: sum.splits)
qed

lemma fuel_8: "n + 8 = Suc (Suc (Suc (Suc (Suc (Suc (Suc (Suc n)))))))"
  by simp

text \<open>
  Claim C4 (distribution amounts) at an execution of the scenario's will in which
  beneficiary B is a contract that calls \<open>executeWill\<close> again while it is paid. The
  will holds 10 locked and 5 flexible, B has share 60 and G share 40, so the claim has B
  receive 9 and G receive 6; the contract holds 30, the will's 15 and 15 of another
  will. When the recipients do not call back, \<open>executeWill\<close> sends 9 to B and 6 to G and
  the contract is left with the other will's 15. When B calls back, the nested call
  passes \<open>willNotExecuted\<close>, because \<open>executed\<close> is only set after the loop: B receives
  18 and G 12, the contract is left with nothing, and the other will still records 15
  locked.
\<close>

theorem executeWill_reentered_pays_twice:
  "payout scenario_will \<lparr>wallet = 11, share = 60, isGuardian = False\<rparr> = 9 \<and>
   payout scenario_will \<lparr>wallet = 12, share = 40, isGuardian = True\<rparr> = 6 \<and>
   storage funded_chain 10 = scenario_will \<and> funds funded_chain = 30 \<and>
   (\<forall>n. external_call (n + 8) (\<lambda>a. plain_account) 0 (scenario_env 11 0 1703196801)
          (ExecuteWill 10) funded_chain =
        Inr (funded_chain\<lparr>funds := 15,
               storage := (storage funded_chain)
                 (10 := scenario_will\<lparr>executed := True, lockedVault := 0,
                                        flexibleVault := 0\<rparr>)\<rparr>,
             [Transfer 11 9, Transfer 12 6, Emit (WillExecuted 10 15)])) \<and>
   (\<forall>n. external_call (n + 8) reentering_B 0 (scenario_env 11 0 1703196801)
          (ExecuteWill 10) funded_chain =
        Inr (funded_chain\<lparr>funds := 0,
               storage := (storage funded_chain)
                 (10 := scenario_will\<lparr>executed := True, lockedVault := 0,
                                        flexibleVault := 0\<rparr>)\<rparr>,
             [Transfer 11 9,
                Transfer 11 9, Transfer 12 6, Emit (WillExecuted 10 15),
              Transfer 12 6, Emit (WillExecuted 10 15)])) \<and>
   received 11 [Transfer 11 9, Transfer 11 9, Transfer 12 6, Emit (WillExecuted 10 15),
                Transfer 12 6, Emit (WillExecuted 10 15)] = 18 \<and>
   received 12 [Transfer 11 9, Transfer 11 9, Transfer 12 6, Emit (WillExecuted 10 15),
                Transfer 12 6, Emit (WillExecuted 10 15)] = 12 \<and>
   lockedVault (storage funded_chain 20) = 15"
proof -
  have p: "payout scenario_will \<lparr>wallet = 11, share = 60, isGuardian = False\<rparr> = 9"
    "payout scenario_will \<lparr>wallet = 12, share = 40, isGuardian = True\<rparr> = 6"
    by (simp_all add: payout_def scenario_facts)
  have plain: "external_call (n + 8) (\<lambda>a. plain_account) 0 (scenario_env 11 0 1703196801)
          (ExecuteWill 10) funded_chain =
        Inr (funded_chain\<lparr>funds := 15,
               storage := (storage funded_chain)
                 (10 := scenario_will\<lparr>executed := True, lockedVault := 0,
                                        flexibleVault := 0\<rparr>)\<rparr>,
             [Transfer 11 9, Transfer 12 6, Emit (WillExecuted 10 15)])" for n
    using plain_execution [where st = funded_chain and e = "scenario_env 11 0 1703196801"
        and A = "\<lambda>a. plain_account" and depth = 0
        and n = "Suc (Suc (Suc (Suc n)))"]
    by (simp add: fuel_8 funded_chain_facts scenario_env_simps plain_account_def
             del: external_call.simps)
  have re: "external_call (n + 8) reentering_B 0 (scenario_env 11 0 1703196801)
          (ExecuteWill 10) funded_chain =
        Inr (funded_chain\<lparr>funds := 0,
               storage := (storage funded_chain)
                 (10 := scenario_will\<lparr>executed := True, lockedVault := 0,
                                        flexibleVault := 0\<rparr>)\<rparr>,
             [Transfer 11 9,
                Transfer 11 9, Transfer 12 6, Emit (WillExecuted 10 15),
              Transfer 12 6, Emit (WillExecuted 10 15)])" for n
    by (simp only: fuel_8 reentered_execution)
  have r: "received 11 [Transfer 11 9, Transfer 11 9, Transfer 12 6, Emit (WillExecuted 10 15),
                Transfer 12 6, Emit (WillExecuted 10 15)] = 18"
    "received 12 [Transfer 11 9, Transfer 11 9, Transfer 12 6, Emit (WillExecuted 10 15),
                Transfer 12 6, Emit (WillExecuted 10 15)] = 12"
    by (simp_all add: received_def)
  have o: "lockedVault (storage funded_chain 20) = 15"
    by (simp add: funded_chain_facts other_will_def)
  from p plain re r o funded_chain_facts(1,3) show ?thesis by blast
qed

subsection \<open>The projection\<close>

lemma lower_char_idem: "lower_char (lower_char c) = lower_char c"
  by (simp add: lower_char_def)

lemma toLowerCase_idem: "toLowerCase (toLowerCase s) = toLowerCase s"
  by (simp add: toLowerCase_def lower_char_idem)

lemma toLowerCase_alice: "toLowerCase alice = alice_id"
  by (simp add: toLowerCase_def lower_char_def alice_def alice_id_def)

lemma Number_small: "n < 9007199254740992 \<Longrightarrow> Number n = n"
  by (simp add: Number_def)

lemma replay_once: "liveEvents replay_events empty_database = after_once"
  by (simp add: replay_events_def listener_def catch_def db_createWill_def
                initializeVaults_def db_updateVaultBalance_def currentBalance_def
                will_exists_def empty_database_def toLowerCase_alice Number_small
                after_once_def Let_def)

lemma replay_twice:
  "liveEvents replay_events after_once =
     after_once\<lparr>Vaults := [\<lparr>v_willId = alice_id, v_vaultType = ''flexible'', v_balance = 0\<rparr>,
                \<lparr>v_willId = alice_id, v_vaultType = ''locked'', v_balance = 10\<rparr>]\<rparr>"
  by (simp add: replay_events_def listener_def catch_def db_createWill_def
                initializeVaults_def db_updateVaultBalance_def currentBalance_def
                will_exists_def toLowerCase_alice Number_small
                after_once_def Let_def)

lemma liveEvents_append: "liveEvents (xs @ ys) db = liveEvents ys (liveEvents xs db)"
  by (induction xs db rule: liveEvents.induct) simp_all

lemma catch_simps: "catch (Inr db') db = db'" "catch (Inl err) db = db"
  by (simp_all add: catch_def)

lemma map_idem: "(\<And>x. f (f x) = f x) \<Longrightarrow> map f (map f xs) = map f xs"
  by (induction xs) simp_all

lemma will_exists_Wills: "Wills db' = Wills db \<Longrightarrow> will_exists db' = will_exists db"
  by (simp add: will_exists_def fun_eq_iff)

lemma updateVaultBalance_Inr:
  assumes "will_exists db (toLowerCase t)" "vt = ''locked'' \<or> vt = ''flexible''"
  shows "db_updateVaultBalance t vt a dep db =
     Inr (db\<lparr>Vaults :=
            filter (\<lambda>v. \<not> (v_willId v = toLowerCase t \<and> v_vaultType v = vt)) (Vaults db) @
            [\<lparr>v_willId = toLowerCase t, v_vaultType = vt,
              v_balance = max 0 (if dep then currentBalance db (toLowerCase t) vt + int a
                                 else currentBalance db (toLowerCase t) vt - int a)\<rparr>]\<rparr>)"
  using assms by (auto simp: db_updateVaultBalance_def Let_def max_def)

lemma updateVaultBalance_Inl:
  assumes "\<not> will_exists db (toLowerCase t)" "vt = ''locked'' \<or> vt = ''flexible''"
  shows "db_updateVaultBalance t vt a dep db = Inl SQLITE_CONSTRAINT_FOREIGNKEY"
  using assms by (auto simp: db_updateVaultBalance_def Let_def)

lemma currentBalance_written:
  "currentBalance (db\<lparr>Vaults :=
       filter (\<lambda>v. \<not> (v_willId v = w \<and> v_vaultType v = vt)) (Vaults db) @
       [\<lparr>v_willId = w, v_vaultType = vt, v_balance = x\<rparr>]\<rparr>) w vt = x"
  by (simp add: currentBalance_def)

lemma vault_balance_step:
  assumes "will_exists db (toLowerCase t)" "vt = ''locked'' \<or> vt = ''flexible''"
  shows "currentBalance (catch (db_updateVaultBalance t vt a dep db) db) (toLowerCase t) vt =
     max 0 (if dep then currentBalance db (toLowerCase t) vt + int a
            else currentBalance db (toLowerCase t) vt - int a)"
    and "will_exists (catch (db_updateVaultBalance t vt a dep db) db) (toLowerCase t)"
proof -
  let ?x = "max 0 (if dep then currentBalance db (toLowerCase t) vt + int a
            else currentBalance db (toLowerCase t) vt - int a)"
  have r: "catch (db_updateVaultBalance t vt a dep db) db =
     db\<lparr>Vaults :=
          filter (\<lambda>v. \<not> (v_willId v = toLowerCase t \<and> v_vaultType v = vt)) (Vaults db) @
          [\<lparr>v_willId = toLowerCase t, v_vaultType = vt, v_balance = ?x\<rparr>]\<rparr>"
    using assms by (simp only: updateVaultBalance_Inr catch_simps)
  show "currentBalance (catch (db_updateVaultBalance t vt a dep db) db) (toLowerCase t) vt = ?x"
    by (simp only: r currentBalance_written)
  show "will_exists (catch (db_updateVaultBalance t vt a dep db) db) (toLowerCase t)"
    using assms(1) by (simp add: r will_exists_def)
qed

lemma currentBalance_nonneg:
  "\<forall>v \<in> set (Vaults db). 0 \<le> v_balance v \<Longrightarrow> 0 \<le> currentBalance db w vt"
proof -
  assume h: "\<forall>v \<in> set (Vaults db). 0 \<le> v_balance v"
  show ?thesis
  proof (cases "filter (\<lambda>v. v_willId v = w \<and> v_vaultType v = vt) (Vaults db)")
    case Nil
    then show ?thesis by (simp add: currentBalance_def)
  next
    case (Cons r rs)
    then have "r \<in> set (filter (\<lambda>v. v_willId v = w \<and> v_vaultType v = vt) (Vaults db))"
      by simp
    then have "r \<in> set (Vaults db)" by simp
    with h Cons show ?thesis by (simp add: currentBalance_def)
  qed
qed

lemma initializeVaults_Wills: "Wills (initializeVaults w db) = Wills db"
  by (simp add: initializeVaults_def Let_def)

lemma initializeVaults_nonneg:
  "\<forall>v \<in> set (Vaults db). 0 \<le> v_balance v \<Longrightarrow>
   \<forall>v \<in> set (Vaults (initializeVaults w db)). 0 \<le> v_balance v"
  by (auto simp: initializeVaults_def Let_def)

lemma db_call_vaults_nonneg:
  assumes "\<forall>v \<in> set (Vaults db). 0 \<le> v_balance v" "db_call now ev db = Inr db'"
  shows "\<forall>v \<in> set (Vaults db'). 0 \<le> v_balance v"
proof (cases ev)
  case (WillCreatedEv t c d)
  define db0 where "db0 = db\<lparr>Wills := filter (\<lambda>w. w_willId w \<noteq> toLowerCase t) (Wills db) @
           [\<lparr>w_willId = toLowerCase t, w_testator = toLowerCase t, w_guardian = None,
             w_checkInPeriod = Number c, w_disputePeriod = Number d,
             w_lastCheckIn = now, w_executed = 0, w_createdAt = now,
             w_updatedAt = now\<rparr>]\<rparr>"
  have "db' = initializeVaults (toLowerCase t) db0"
    using assms(2) WillCreatedEv by (simp add: db_createWill_def Let_def db0_def)
  moreover have "\<forall>v \<in> set (Vaults db0). 0 \<le> v_balance v"
    using assms(1) by (simp add: db0_def)
  ultimately show ?thesis using initializeVaults_nonneg [of db0 "toLowerCase t"] by blast
next
  case (CheckInEv t ts)
  with assms show ?thesis by (auto simp: db_updateLastCheckIn_def)
next
  case (WillExecutedEv t x)
  with assms show ?thesis by (auto simp: db_executeWill_def)
next
  case (BeneficiaryAddedEv t b s g)
  with assms show ?thesis
    by (auto simp: db_addBeneficiary_def updateGuardian_def Let_def split: if_splits)
next
  case (BeneficiaryRemovedEv t b)
  with assms show ?thesis by (auto simp: db_removeBeneficiary_def Let_def)
next
  case (BeneficiaryUpdatedEv t b s g)
  with assms show ?thesis
    by (auto simp: db_updateBeneficiary_def updateGuardian_def Let_def split: if_splits)
next
  case (DepositLockedEv t a)
  with assms show ?thesis
    using currentBalance_nonneg [OF assms(1), of "toLowerCase t" "''locked''"]
    by (auto simp: db_updateVaultBalance_def Let_def split: if_splits)
next
  case (DepositFlexibleEv t a)
  with assms show ?thesis
    using currentBalance_nonneg [OF assms(1), of "toLowerCase t" "''flexible''"]
    by (auto simp: db_updateVaultBalance_def Let_def split: if_splits)
next
  case (WithdrawFlexibleEv t a)
  with assms show ?thesis
    by (auto simp: db_updateVaultBalance_def Let_def split: if_splits)
next
  case (DisputeStartedEv t d)
  with assms show ?thesis by simp
next
  case (DocumentAddedEv t h f d ts)
  with assms show ?thesis
    by (cases ts) (auto simp: db_addDocument_def Let_def split: if_splits)
next
  case (DocumentRemovedEv t h)
  with assms show ?thesis by (auto simp: db_removeDocument_def Let_def)
next
  case (UnknownEv n)
  with assms show ?thesis by simp
qed

lemma listener_vaults_nonneg:
  assumes "\<forall>v \<in> set (Vaults db). 0 \<le> v_balance v"
  shows "\<forall>v \<in> set (Vaults (listener now ev db)). 0 \<le> v_balance v"
proof (cases "db_call now ev db")
  case (Inl err)
  with assms show ?thesis by (simp add: listener_def catch_simps)
next
  case (Inr db')
  with db_call_vaults_nonneg [OF assms Inr] show ?thesis
    by (simp add: listener_def catch_simps)
qed

text \<open>
  Claim C10 (the projection never stores a negative vault balance). For every replica
  and every \<open>WithdrawFlexible\<close> event: when the will has a row, the statement does not
  fail and the stored flexible balance afterwards is the previous balance (0 when there
  was no vault row) minus the amount, replaced by 0 when that is negative, so a
  withdrawal above the recorded balance is absorbed; when the will has no row, the
  foreign key rejects the write and the replica is unchanged. No event of any kind makes
  a stored balance negative.
\<close>

theorem withdraw_clamped_at_zero:
  "(will_exists db (toLowerCase t) \<longrightarrow>
      (\<exists>db'. db_call now (WithdrawFlexibleEv t a) db = Inr db') \<and>
      currentBalance (listener now (WithdrawFlexibleEv t a) db) (toLowerCase t) ''flexible'' =
        max 0 (currentBalance db (toLowerCase t) ''flexible'' - int a)) \<and>
   (\<not> will_exists db (toLowerCase t) \<longrightarrow> listener now (WithdrawFlexibleEv t a) db = db) \<and>
   ((\<forall>v \<in> set (Vaults db). 0 \<le> v_balance v) \<longrightarrow>
      (\<forall>v \<in> set (Vaults (listener now ev db)). 0 \<le> v_balance v))"
proof (intro conjI impI)
  assume w: "will_exists db (toLowerCase t)"
  show "\<exists>db'. db_call now (WithdrawFlexibleEv t a) db = Inr db'"
    using updateVaultBalance_Inr [OF w, of "''flexible''" a False] by simp
  show "currentBalance (listener now (WithdrawFlexibleEv t a) db) (toLowerCase t) ''flexible'' =
        max 0 (currentBalance db (toLowerCase t) ''flexible'' - int a)"
    using vault_balance_step(1) [OF w, of "''flexible''" a False] by (simp add: listener_def)
next
  assume "\<not> will_exists db (toLowerCase t)"
  then show "listener now (WithdrawFlexibleEv t a) db = db"
    using updateVaultBalance_Inl [of db t "''flexible''" a False]
    by (simp add: listener_def catch_simps)
next
  assume "\<forall>v \<in> set (Vaults db). 0 \<le> v_balance v"
  then show "\<forall>v \<in> set (Vaults (listener now ev db)). 0 \<le> v_balance v"
    by (rule listener_vaults_nonneg)
qed

lemma after_once_facts:
  "will_exists after_once alice_id" "currentBalance after_once alice_id ''flexible'' = 0"
  "currentBalance after_once alice_id ''locked'' = 5"
  "\<forall>v \<in> set (Vaults after_once). 0 \<le> v_balance v"
  by (simp_all add: after_once_def will_exists_def currentBalance_def)

theorem withdraw_clamped_at_zero_witness:
  "currentBalance (listener 1700000400 (WithdrawFlexibleEv alice 7) after_once)
     alice_id ''flexible'' = 0 \<and>
   currentBalance (listener 1700000400 (WithdrawFlexibleEv alice 7)
     (listener 1700000350 (DepositFlexibleEv alice 10) after_once)) alice_id ''flexible'' = 3 \<and>
   listener 1700000400 (WithdrawFlexibleEv alice 7) empty_database = empty_database \<and>
   list_all (\<lambda>v. 0 \<le> v_balance v)
     (Vaults (listener 1700000400 (WithdrawFlexibleEv alice 7) after_once))"
proof -
  define db1 where "db1 = listener 1700000350 (DepositFlexibleEv alice 10) after_once"
  have w0: "will_exists after_once (toLowerCase alice)"
    "currentBalance after_once (toLowerCase alice) ''flexible'' = 0"
    by (simp_all add: toLowerCase_alice after_once_facts)
  have d1: "will_exists db1 (toLowerCase alice)"
    "currentBalance db1 (toLowerCase alice) ''flexible'' = 10"
    using vault_balance_step [of after_once alice "''flexible''" 10 True] w0
    by (simp_all add: db1_def listener_def)
  have e: "\<not> will_exists empty_database (toLowerCase alice)"
    by (simp add: will_exists_def empty_database_def)
  note T = withdraw_clamped_at_zero [where t = alice and a = 7 and now = 1700000400
      and ev = "WithdrawFlexibleEv alice 7"]
  from T [of after_once] w0(1) have
    "currentBalance (listener 1700000400 (WithdrawFlexibleEv alice 7) after_once)
       (toLowerCase alice) ''flexible'' =
     max 0 (currentBalance after_once (toLowerCase alice) ''flexible'' - int 7)"
    by blast
  then have c1: "currentBalance (listener 1700000400 (WithdrawFlexibleEv alice 7) after_once)
       alice_id ''flexible'' = 0"
    by (simp add: after_once_facts toLowerCase_alice)
  from T [of db1] d1(1) have
    "currentBalance (listener 1700000400 (WithdrawFlexibleEv alice 7) db1)
       (toLowerCase alice) ''flexible'' =
     max 0 (currentBalance db1 (toLowerCase alice) ''flexible'' - int 7)"
    by blast
  then have c2: "currentBalance (listener 1700000400 (WithdrawFlexibleEv alice 7) db1)
       alice_id ''flexible'' = 3"
    using d1(2) by (simp add: toLowerCase_alice)
  from T [of empty_database] e have
    c3: "listener 1700000400 (WithdrawFlexibleEv alice 7) empty_database = empty_database"
    by blast
  from T [of after_once] after_once_facts(4) have
    "\<forall>v \<in> set (Vaults (listener 1700000400 (WithdrawFlexibleEv alice 7) after_once)).
        0 \<le> v_balance v"
    by blast
  then have c4: "list_all (\<lambda>v. 0 \<le> v_balance v)
     (Vaults (listener 1700000400 (WithdrawFlexibleEv alice 7) after_once))"
    by (simp add: list_all_iff)
  from c1 c2 c3 c4 show ?thesis unfolding db1_def by blast
qed

lemma initializeVaults_idem:
  "initializeVaults w (initializeVaults w db) = initializeVaults w db"
  by (cases "filter (\<lambda>v. v_willId v = w \<and> v_vaultType v = ''locked'') (Vaults db) = []";
      cases "filter (\<lambda>v. v_willId v = w \<and> v_vaultType v = ''flexible'') (Vaults db) = []";
      simp add: initializeVaults_def Let_def)

lemma initializeVaults_Wills_update:
  "initializeVaults w (db\<lparr>Wills := x\<rparr>) = (initializeVaults w db)\<lparr>Wills := x\<rparr>"
  by (simp add: initializeVaults_def Let_def)

lemma createWill_idem:
  "catch (db_createWill now t c d (catch (db_createWill now t c d db) db))
         (catch (db_createWill now t c d db) db)
     = catch (db_createWill now t c d db) db"
  by (simp add: db_createWill_def Let_def catch_simps initializeVaults_Wills_update
                initializeVaults_idem)

lemma updateLastCheckIn_idem:
  "catch (db_updateLastCheckIn now t ts (catch (db_updateLastCheckIn now t ts db) db))
         (catch (db_updateLastCheckIn now t ts db) db)
     = catch (db_updateLastCheckIn now t ts db) db"
  by (simp add: db_updateLastCheckIn_def catch_simps map_idem)

lemma executeWill_idem:
  "catch (db_executeWill now t (catch (db_executeWill now t db) db))
         (catch (db_executeWill now t db) db)
     = catch (db_executeWill now t db) db"
  by (simp add: db_executeWill_def catch_simps map_idem)

lemma updateGuardian_idem:
  "updateGuardian now w g (updateGuardian now w g db) = updateGuardian now w g db"
  by (simp add: updateGuardian_def map_idem)

lemma removeBeneficiary_idem:
  "catch (db_removeBeneficiary now t b (catch (db_removeBeneficiary now t b db) db))
         (catch (db_removeBeneficiary now t b db) db)
     = catch (db_removeBeneficiary now t b db) db"
  by (simp add: db_removeBeneficiary_def Let_def catch_simps map_idem)

lemma updateBeneficiary_idem:
  "catch (db_updateBeneficiary now t b s g (catch (db_updateBeneficiary now t b s g db) db))
         (catch (db_updateBeneficiary now t b s g db) db)
     = catch (db_updateBeneficiary now t b s g db) db"
  by (cases g)
     (simp_all add: db_updateBeneficiary_def Let_def catch_simps map_idem updateGuardian_def)

lemma removeDocument_idem:
  "catch (db_removeDocument t h (catch (db_removeDocument t h db) db))
         (catch (db_removeDocument t h db) db)
     = catch (db_removeDocument t h db) db"
  by (simp add: db_removeDocument_def Let_def catch_simps)

lemma listener_idem:
  assumes "\<not> is_vault_event ev" "\<not> assigns_row_id ev"
  shows "listener now ev (listener now ev db) = listener now ev db"
proof (cases ev)
  case (WillCreatedEv t c d)
  then show ?thesis by (simp add: listener_def createWill_idem)
next
  case (CheckInEv t ts)
  then show ?thesis by (simp add: listener_def updateLastCheckIn_idem)
next
  case (WillExecutedEv t x)
  then show ?thesis by (simp add: listener_def executeWill_idem)
next
  case (BeneficiaryAddedEv t b s g)
  with assms show ?thesis by simp
next
  case (BeneficiaryRemovedEv t b)
  then show ?thesis by (simp add: listener_def removeBeneficiary_idem)
next
  case (BeneficiaryUpdatedEv t b s g)
  then show ?thesis by (simp add: listener_def updateBeneficiary_idem)
next
  case (DepositLockedEv t a)
  with assms show ?thesis by simp
next
  case (DepositFlexibleEv t a)
  with assms show ?thesis by simp
next
  case (WithdrawFlexibleEv t a)
  with assms show ?thesis by simp
next
  case (DisputeStartedEv t d)
  then show ?thesis by (simp add: listener_def catch_simps)
next
  case (DocumentAddedEv t h f d ts)
  with assms show ?thesis by simp
next
  case (DocumentRemovedEv t h)
  then show ?thesis by (simp add: listener_def removeDocument_idem)
next
  case (UnknownEv n)
  then show ?thesis by (simp add: listener_def catch_simps)
qed

lemma addBeneficiary_twice:
  "forget_ids (catch (db_addBeneficiary now t b s g (catch (db_addBeneficiary now t b s g db) db))
         (catch (db_addBeneficiary now t b s g db) db))
     = forget_ids (catch (db_addBeneficiary now t b s g db) db)"
proof (cases "will_exists db (toLowerCase t)")
  case False
  then show ?thesis by (simp add: db_addBeneficiary_def Let_def catch_simps)
next
  case True
  then show ?thesis
    by (cases g)
       (simp_all add: db_addBeneficiary_def Let_def catch_simps will_exists_def
                      updateGuardian_def forget_ids_def map_idem)
qed

lemma addDocument_twice:
  "forget_ids (catch (db_addDocument t h f d ts (catch (db_addDocument t h f d ts db) db))
         (catch (db_addDocument t h f d ts db) db))
     = forget_ids (catch (db_addDocument t h f d ts db) db)"
proof (cases "will_exists db (toLowerCase t)")
  case False
  then show ?thesis by (simp add: db_addDocument_def Let_def catch_simps)
next
  case True
  then show ?thesis
    by (simp add: db_addDocument_def Let_def catch_simps will_exists_def forget_ids_def)
qed

lemma listener_twice_ids:
  assumes "assigns_row_id ev"
  shows "forget_ids (listener now ev (listener now ev db)) = forget_ids (listener now ev db)"
proof (cases ev)
  case (BeneficiaryAddedEv t b s g)
  then show ?thesis by (simp add: listener_def addBeneficiary_twice)
next
  case (DocumentAddedEv t h f d ts)
  then show ?thesis by (cases ts) (simp_all add: listener_def addDocument_twice)
qed (use assms in simp_all)

lemma deposit_twice:
  assumes "will_exists db (toLowerCase t)" "vt = ''locked'' \<or> vt = ''flexible''"
    "0 \<le> currentBalance db (toLowerCase t) vt"
  shows "currentBalance
      (catch (db_updateVaultBalance t vt a True (catch (db_updateVaultBalance t vt a True db) db))
             (catch (db_updateVaultBalance t vt a True db) db)) (toLowerCase t) vt
     = currentBalance db (toLowerCase t) vt + 2 * int a"
proof -
  let ?db1 = "catch (db_updateVaultBalance t vt a True db) db"
  have 1: "currentBalance ?db1 (toLowerCase t) vt = currentBalance db (toLowerCase t) vt + int a"
    using vault_balance_step(1) [OF assms(1,2), of a True] assms(3) by simp
  have w: "will_exists ?db1 (toLowerCase t)" by (rule vault_balance_step(2) [OF assms(1,2)])
  show ?thesis
    using vault_balance_step(1) [OF w assms(2), of a True] 1 assms(3) by simp
qed

lemma will_exists_map:
  assumes "\<And>x. w_willId (f x) = w_willId x"
  shows "will_exists (db\<lparr>Wills := map f (Wills db)\<rparr>) w = will_exists db w"
proof -
  have "filter (\<lambda>x. w_willId x = w) (map f (Wills db)) =
        map f (filter (\<lambda>x. w_willId x = w) (Wills db))"
    using assms by (simp add: filter_map o_def)
  then show ?thesis by (simp add: will_exists_def)
qed

lemma will_exists_other_fields:
  "will_exists (db\<lparr>Beneficiaries := bs\<rparr>) w = will_exists db w"
  "will_exists (db\<lparr>Vaults := vs\<rparr>) w = will_exists db w"
  "will_exists (db\<lparr>Documents := ds\<rparr>) w = will_exists db w"
  "will_exists (db\<lparr>seq_Beneficiaries := n\<rparr>) w = will_exists db w"
  "will_exists (db\<lparr>seq_Documents := n\<rparr>) w = will_exists db w"
  by (simp_all add: will_exists_def)

lemma will_exists_updateGuardian:
  "will_exists (updateGuardian now x g db) w = will_exists db w"
  unfolding updateGuardian_def by (rule will_exists_map) simp

lemma will_exists_initializeVaults:
  "will_exists (initializeVaults x db) w = will_exists db w"
  by (simp add: will_exists_def initializeVaults_Wills)

lemma listener_will_exists:
  assumes "will_exists db w"
  shows "will_exists (listener now ev db) w"
proof (cases "db_call now ev db")
  case (Inl err)
  with assms show ?thesis by (simp add: listener_def catch_simps)
next
  case (Inr db')
  have "will_exists db' w"
  proof (cases ev)
    case (WillCreatedEv t c d)
    define row where "row = \<lparr>w_willId = toLowerCase t, w_testator = toLowerCase t,
             w_guardian = None, w_checkInPeriod = Number c, w_disputePeriod = Number d,
             w_lastCheckIn = now, w_executed = 0, w_createdAt = now, w_updatedAt = now\<rparr>"
    define db0 where
      "db0 = db\<lparr>Wills := filter (\<lambda>x. w_willId x \<noteq> toLowerCase t) (Wills db) @ [row]\<rparr>"
    have d: "db' = initializeVaults (toLowerCase t) db0"
      using Inr WillCreatedEv by (simp add: db_createWill_def Let_def db0_def row_def)
    have "filter (\<lambda>x. w_willId x = w) (Wills db0) \<noteq> []"
    proof (cases "w = toLowerCase t")
      case True
      then show ?thesis by (simp add: db0_def row_def)
    next
      case False
      then have "filter (\<lambda>x. w_willId x = w)
            (filter (\<lambda>x. w_willId x \<noteq> toLowerCase t) (Wills db)) =
          filter (\<lambda>x. w_willId x = w) (Wills db)"
        by (auto intro: filter_cong)
      with assms show ?thesis by (simp add: db0_def will_exists_def)
    qed
    then show ?thesis by (simp add: d will_exists_initializeVaults) (simp add: will_exists_def)
  next
    case (CheckInEv t ts)
    with Inr have "db' = db\<lparr>Wills := map (\<lambda>x. if w_testator x = toLowerCase t
              then x\<lparr>w_lastCheckIn := Number ts, w_updatedAt := now\<rparr> else x) (Wills db)\<rparr>"
      by (auto simp: db_updateLastCheckIn_def)
    with assms show ?thesis by (simp add: will_exists_map)
  next
    case (WillExecutedEv t x)
    with Inr have "db' = db\<lparr>Wills := map (\<lambda>x. if w_testator x = toLowerCase t
              then x\<lparr>w_executed := 1, w_updatedAt := now\<rparr> else x) (Wills db)\<rparr>"
      by (auto simp: db_executeWill_def)
    with assms show ?thesis by (simp add: will_exists_map)
  next
    case (BeneficiaryAddedEv t b s g)
    with Inr assms show ?thesis
      by (cases g)
         (auto simp: db_addBeneficiary_def Let_def will_exists_updateGuardian
                     will_exists_other_fields split: if_splits)
  next
    case (BeneficiaryRemovedEv t b)
    with Inr have "db' = (db\<lparr>Wills := map (\<lambda>x. if w_willId x = toLowerCase t \<and>
                                    w_guardian x = Some (toLowerCase b)
                                 then x\<lparr>w_guardian := None, w_updatedAt := now\<rparr>
                                 else x) (Wills db)\<rparr>)
          \<lparr>Beneficiaries := filter (\<lambda>x. \<not> (b_willId x = toLowerCase t \<and>
                                b_beneficiary x = toLowerCase b)) (Beneficiaries db)\<rparr>"
      by (auto simp: db_removeBeneficiary_def Let_def)
    with assms show ?thesis by (simp add: will_exists_map will_exists_other_fields)
  next
    case (BeneficiaryUpdatedEv t b s g)
    with Inr assms show ?thesis
      by (cases g)
         (auto simp: db_updateBeneficiary_def Let_def will_exists_updateGuardian
                     will_exists_other_fields)
  next
    case (DepositLockedEv t a)
    with Inr assms show ?thesis
      by (auto simp: db_updateVaultBalance_def Let_def will_exists_other_fields split: if_splits)
  next
    case (DepositFlexibleEv t a)
    with Inr assms show ?thesis
      by (auto simp: db_updateVaultBalance_def Let_def will_exists_other_fields split: if_splits)
  next
    case (WithdrawFlexibleEv t a)
    with Inr assms show ?thesis
      by (auto simp: db_updateVaultBalance_def Let_def will_exists_other_fields split: if_splits)
  next
    case (DisputeStartedEv t d)
    with Inr assms show ?thesis by simp
  next
    case (DocumentAddedEv t h f d ts)
    with Inr assms show ?thesis
      by (cases ts)
         (auto simp: db_addDocument_def Let_def will_exists_def split: if_splits)
  next
    case (DocumentRemovedEv t h)
    with Inr assms show ?thesis
      by (auto simp: db_removeDocument_def Let_def will_exists_other_fields)
  next
    case (UnknownEv n)
    with Inr assms show ?thesis by simp
  qed
  with Inr show ?thesis by (simp add: listener_def catch_simps)
qed

lemma currentBalance_Vaults:
  "currentBalance (db\<lparr>Wills := ws\<rparr>) w vt = currentBalance db w vt"
  "currentBalance (db\<lparr>Beneficiaries := bs\<rparr>) w vt = currentBalance db w vt"
  "currentBalance (db\<lparr>Documents := ds\<rparr>) w vt = currentBalance db w vt"
  "currentBalance (db\<lparr>seq_Beneficiaries := n\<rparr>) w vt = currentBalance db w vt"
  "currentBalance (db\<lparr>seq_Documents := n\<rparr>) w vt = currentBalance db w vt"
  by (simp_all add: currentBalance_def)

lemma currentBalance_other_row:
  assumes "\<not> (x = w \<and> xt = vt)"
  shows "currentBalance (db\<lparr>Vaults :=
       filter (\<lambda>v. \<not> (v_willId v = x \<and> v_vaultType v = xt)) (Vaults db) @
       [\<lparr>v_willId = x, v_vaultType = xt, v_balance = y\<rparr>]\<rparr>) w vt = currentBalance db w vt"
proof -
  have "filter (\<lambda>v. v_willId v = w \<and> v_vaultType v = vt)
          (filter (\<lambda>v. \<not> (v_willId v = x \<and> v_vaultType v = xt)) (Vaults db)) =
        filter (\<lambda>v. v_willId v = w \<and> v_vaultType v = vt) (Vaults db)"
    using assms by (auto intro: filter_cong)
  then show ?thesis using assms by (auto simp: currentBalance_def)
qed

lemma updateVaultBalance_other:
  assumes "\<not> (toLowerCase t = w \<and> xt = vt)"
  shows "currentBalance (catch (db_updateVaultBalance t xt a dep db) db) w vt =
     currentBalance db w vt"
proof (cases "(xt = ''locked'' \<or> xt = ''flexible'') \<and> will_exists db (toLowerCase t)")
  case True
  then have r: "catch (db_updateVaultBalance t xt a dep db) db =
     db\<lparr>Vaults :=
          filter (\<lambda>v. \<not> (v_willId v = toLowerCase t \<and> v_vaultType v = xt)) (Vaults db) @
          [\<lparr>v_willId = toLowerCase t, v_vaultType = xt,
            v_balance = max 0 (if dep then currentBalance db (toLowerCase t) xt + int a
                               else currentBalance db (toLowerCase t) xt - int a)\<rparr>]\<rparr>"
    using updateVaultBalance_Inr [of db t xt a dep] by (simp only: catch_simps)
  show ?thesis by (simp only: r currentBalance_other_row [OF assms])
next
  case False
  then have "\<exists>err. db_updateVaultBalance t xt a dep db = Inl err"
    by (auto simp: db_updateVaultBalance_def Let_def)
  then show ?thesis by (auto simp: catch_simps)
qed

lemma currentBalance_initializeVaults:
  "currentBalance (initializeVaults x db) w vt = currentBalance db w vt"
proof -
  have ins: "(case filter (\<lambda>v. v_willId v = w \<and> v_vaultType v = vt)
                 (if filter (\<lambda>v. v_willId v = x \<and> v_vaultType v = xt) vs \<noteq> [] then vs
                  else vs @ [\<lparr>v_willId = x, v_vaultType = xt, v_balance = 0\<rparr>]) of
               [] \<Rightarrow> 0 | r # rs \<Rightarrow> v_balance r) =
             (case filter (\<lambda>v. v_willId v = w \<and> v_vaultType v = vt) vs of
               [] \<Rightarrow> 0 | r # rs \<Rightarrow> v_balance r)" for xt vs
  proof (cases "x = w \<and> xt = vt")
    case True
    then show ?thesis by (auto split: list.splits)
  next
    case False
    then show ?thesis by auto
  qed
  show ?thesis
    by (simp add: currentBalance_def initializeVaults_def Let_def ins)
qed

lemma listener_locked_balance:
  assumes "will_exists db w" "0 \<le> currentBalance db w ''locked''"
  shows "currentBalance (listener now ev db) w ''locked'' =
     currentBalance db w ''locked'' + locked_deposits w [(now, ev)]"
proof (cases ev)
  case (WillCreatedEv t c d)
  then show ?thesis
    by (simp add: listener_def db_createWill_def Let_def catch_simps
                  currentBalance_initializeVaults currentBalance_Vaults)
next
  case (CheckInEv t ts)
  then show ?thesis
    by (simp add: listener_def db_updateLastCheckIn_def catch_simps currentBalance_Vaults)
next
  case (WillExecutedEv t x)
  then show ?thesis
    by (simp add: listener_def db_executeWill_def catch_simps currentBalance_Vaults)
next
  case (BeneficiaryAddedEv t b s g)
  then show ?thesis
    by (simp add: listener_def db_addBeneficiary_def Let_def catch_simps updateGuardian_def
                  currentBalance_Vaults)
next
  case (BeneficiaryRemovedEv t b)
  then show ?thesis
    by (simp add: listener_def db_removeBeneficiary_def Let_def catch_simps
                  currentBalance_Vaults)
next
  case (BeneficiaryUpdatedEv t b s g)
  then show ?thesis
    by (simp add: listener_def db_updateBeneficiary_def Let_def catch_simps updateGuardian_def
                  currentBalance_Vaults)
next
  case (DepositLockedEv t a)
  show ?thesis
  proof (cases "toLowerCase t = w")
    case True
    with assms DepositLockedEv vault_balance_step(1) [of db t "''locked''" a True]
    show ?thesis by (simp add: listener_def)
  next
    case False
    with DepositLockedEv updateVaultBalance_other [of t w "''locked''" "''locked''" a True db]
    show ?thesis by (simp add: listener_def)
  qed
next
  case (DepositFlexibleEv t a)
  with updateVaultBalance_other [of t w "''flexible''" "''locked''" a True db]
  show ?thesis by (simp add: listener_def)
next
  case (WithdrawFlexibleEv t a)
  with updateVaultBalance_other [of t w "''flexible''" "''locked''" a False db]
  show ?thesis by (simp add: listener_def)
next
  case (DisputeStartedEv t d)
  then show ?thesis by (simp add: listener_def catch_simps)
next
  case (DocumentAddedEv t h f d ts)
  then show ?thesis
    by (cases ts)
       (simp_all add: listener_def db_addDocument_def Let_def catch_simps currentBalance_Vaults)
next
  case (DocumentRemovedEv t h)
  then show ?thesis
    by (simp add: listener_def db_removeDocument_def Let_def catch_simps currentBalance_Vaults)
next
  case (UnknownEv n)
  then show ?thesis by (simp add: listener_def catch_simps)
qed

lemma locked_deposits_nonneg: "0 \<le> locked_deposits w es"
  by (induction w es rule: locked_deposits.induct) simp_all

lemma locked_deposits_Cons:
  "locked_deposits w (p # es) = locked_deposits w [p] + locked_deposits w es"
  by (cases "(w, p # es)" rule: locked_deposits.cases) simp_all

lemma locked_deposits_append:
  "locked_deposits w (xs @ ys) = locked_deposits w xs + locked_deposits w ys"
proof (induction xs)
  case Nil
  show ?case by simp
next
  case (Cons p xs)
  show ?case
    using locked_deposits_Cons [of w p "xs @ ys"] locked_deposits_Cons [of w p xs] Cons
    by simp
qed

lemma liveEvents_locked_balance:
  assumes "will_exists db w" "0 \<le> currentBalance db w ''locked''"
  shows "currentBalance (liveEvents es db) w ''locked'' =
     currentBalance db w ''locked'' + locked_deposits w es"
  using assms
proof (induction es arbitrary: db)
  case Nil
  show ?case by simp
next
  case (Cons p es)
  obtain now ev where p: "p = (now, ev)" by (cases p)
  have 1: "currentBalance (listener now ev db) w ''locked'' =
      currentBalance db w ''locked'' + locked_deposits w [(now, ev)]"
    by (rule listener_locked_balance [OF Cons.prems])
  have 2: "will_exists (listener now ev db) w"
    by (rule listener_will_exists [OF Cons.prems(1)])
  have 3: "0 \<le> currentBalance (listener now ev db) w ''locked''"
    using 1 Cons.prems(2) locked_deposits_nonneg [of w "[(now, ev)]"] by simp
  from Cons.IH [OF 2 3] 1 locked_deposits_Cons [of w "(now, ev)" es] show ?case
    by (simp add: p)
qed

text \<open>
  Duplicate delivery of one event. Applying an event a second time right after the
  first, at the same clock reading, leaves the replica unchanged for every event that is
  neither a vault event nor an insert with an AUTOINCREMENT id, and unchanged up to row
  ids for \<open>BeneficiaryAdded\<close> and \<open>DocumentAdded\<close>: these write paths are upserts,
  updates or deletes keyed by the event's arguments. The vault path is not: for a will
  that has a row, a deposit adds its amount to the stored balance, so a deposit delivered
  twice adds it twice; a withdrawal delivered twice subtracts twice, each time stopping
  at 0. Over a whole log the locked balance of such a will grows by the sum of the log's
  \<open>DepositLocked\<close> amounts for it, and by twice that sum when the log is applied twice.
\<close>

lemma duplicate_delivery:
  "(\<not> is_vault_event ev \<and> \<not> assigns_row_id ev \<longrightarrow>
      listener now ev (listener now ev db) = listener now ev db) \<and>
   (assigns_row_id ev \<longrightarrow>
      forget_ids (listener now ev (listener now ev db)) = forget_ids (listener now ev db)) \<and>
   (will_exists db (toLowerCase t) \<and> 0 \<le> currentBalance db (toLowerCase t) ''locked'' \<longrightarrow>
      currentBalance (listener now (DepositLockedEv t a) db) (toLowerCase t) ''locked'' =
        currentBalance db (toLowerCase t) ''locked'' + int a \<and>
      currentBalance (listener now (DepositLockedEv t a) (listener now (DepositLockedEv t a) db))
          (toLowerCase t) ''locked'' =
        currentBalance db (toLowerCase t) ''locked'' + 2 * int a) \<and>
   (will_exists db (toLowerCase t) \<and> 0 \<le> currentBalance db (toLowerCase t) ''flexible'' \<longrightarrow>
      currentBalance (listener now (DepositFlexibleEv t a) db) (toLowerCase t) ''flexible'' =
        currentBalance db (toLowerCase t) ''flexible'' + int a \<and>
      currentBalance (listener now (DepositFlexibleEv t a)
          (listener now (DepositFlexibleEv t a) db)) (toLowerCase t) ''flexible'' =
        currentBalance db (toLowerCase t) ''flexible'' + 2 * int a) \<and>
   (will_exists db (toLowerCase t) \<longrightarrow>
      currentBalance (listener now (WithdrawFlexibleEv t a)
          (listener now (WithdrawFlexibleEv t a) db)) (toLowerCase t) ''flexible'' =
        max 0 (max 0 (currentBalance db (toLowerCase t) ''flexible'' - int a) - int a)) \<and>
   (will_exists db w \<and> 0 \<le> currentBalance db w ''locked'' \<longrightarrow>
      currentBalance (liveEvents es db) w ''locked'' =
        currentBalance db w ''locked'' + locked_deposits w es \<and>
      currentBalance (liveEvents (es @ es) db) w ''locked'' =
        currentBalance db w ''locked'' + 2 * locked_deposits w es)"
proof (intro conjI impI)
  assume h: "will_exists db w \<and> 0 \<le> currentBalance db w ''locked''"
  then show "currentBalance (liveEvents es db) w ''locked'' =
        currentBalance db w ''locked'' + locked_deposits w es"
    using liveEvents_locked_balance by blast
  from h show "currentBalance (liveEvents (es @ es) db) w ''locked'' =
        currentBalance db w ''locked'' + 2 * locked_deposits w es"
    using liveEvents_locked_balance [of db w "es @ es"] by (simp add: locked_deposits_append)
next
  assume "\<not> is_vault_event ev \<and> \<not> assigns_row_id ev"
  then show "listener now ev (listener now ev db) = listener now ev db"
    using listener_idem by blast
next
  assume "assigns_row_id ev"
  then show "forget_ids (listener now ev (listener now ev db)) = forget_ids (listener now ev db)"
    by (rule listener_twice_ids)
next
  assume h: "will_exists db (toLowerCase t) \<and> 0 \<le> currentBalance db (toLowerCase t) ''locked''"
  show "currentBalance (listener now (DepositLockedEv t a) db) (toLowerCase t) ''locked'' =
        currentBalance db (toLowerCase t) ''locked'' + int a"
    using vault_balance_step(1) [of db t "''locked''" a True] h by (simp add: listener_def)
  show "currentBalance (listener now (DepositLockedEv t a) (listener now (DepositLockedEv t a) db))
          (toLowerCase t) ''locked'' =
        currentBalance db (toLowerCase t) ''locked'' + 2 * int a"
    using deposit_twice [of db t "''locked''" a] h by (simp add: listener_def)
next
  assume h: "will_exists db (toLowerCase t) \<and> 0 \<le> currentBalance db (toLowerCase t) ''flexible''"
  show "currentBalance (listener now (DepositFlexibleEv t a) db) (toLowerCase t) ''flexible'' =
        currentBalance db (toLowerCase t) ''flexible'' + int a"
    using vault_balance_step(1) [of db t "''flexible''" a True] h by (simp add: listener_def)
  show "currentBalance (listener now (DepositFlexibleEv t a)
          (listener now (DepositFlexibleEv t a) db)) (toLowerCase t) ''flexible'' =
        currentBalance db (toLowerCase t) ''flexible'' + 2 * int a"
    using deposit_twice [of db t "''flexible''" a] h by (simp add: listener_def)
next
  assume w: "will_exists db (toLowerCase t)"
  let ?db1 = "catch (db_updateVaultBalance t ''flexible'' a False db) db"
  have w1: "will_exists ?db1 (toLowerCase t)"
    by (rule vault_balance_step(2) [OF w]) simp
  have 1: "currentBalance ?db1 (toLowerCase t) ''flexible'' =
      max 0 (currentBalance db (toLowerCase t) ''flexible'' - int a)"
    using vault_balance_step(1) [OF w, of "''flexible''" a False] by simp
  have "currentBalance (catch (db_updateVaultBalance t ''flexible'' a False ?db1) ?db1)
      (toLowerCase t) ''flexible'' =
      max 0 (currentBalance ?db1 (toLowerCase t) ''flexible'' - int a)"
    using vault_balance_step(1) [OF w1, of "''flexible''" a False] by simp
  then show "currentBalance (listener now (WithdrawFlexibleEv t a)
          (listener now (WithdrawFlexibleEv t a) db)) (toLowerCase t) ''flexible'' =
        max 0 (max 0 (currentBalance db (toLowerCase t) ''flexible'' - int a) - int a)"
    by (simp only: listener_def db_call.simps 1)
qed

lemma duplicate_delivery_example:
  "listener 1700000500 (CheckInEv alice 1700000450)
      (listener 1700000500 (CheckInEv alice 1700000450) after_once) =
     listener 1700000500 (CheckInEv alice 1700000450) after_once \<and>
   currentBalance (listener 1700000500 (DepositLockedEv alice 5) after_once) alice_id ''locked''
     = 10 \<and>
   currentBalance (listener 1700000500 (DepositLockedEv alice 5)
      (listener 1700000500 (DepositLockedEv alice 5) after_once)) alice_id ''locked'' = 15 \<and>
   forget_ids (listener 1700000500 (BeneficiaryAddedEv alice bob 60 True)
      (listener 1700000500 (BeneficiaryAddedEv alice bob 60 True) after_once)) =
     forget_ids (listener 1700000500 (BeneficiaryAddedEv alice bob 60 True) after_once) \<and>
   currentBalance (listener 1700000500 (DepositFlexibleEv alice 5)
      (listener 1700000500 (DepositFlexibleEv alice 5) after_once)) alice_id ''flexible'' = 10 \<and>
   currentBalance (listener 1700000500 (WithdrawFlexibleEv alice 5)
      (listener 1700000500 (WithdrawFlexibleEv alice 5) after_once)) alice_id ''flexible'' = 0 \<and>
   currentBalance (liveEvents (replay_events @ replay_events) after_once) alice_id ''locked''
     = 15"
proof -
  have l0: "will_exists after_once alice_id \<and> 0 \<le> currentBalance after_once alice_id ''locked''"
    by (simp add: after_once_facts)
  have ld: "locked_deposits alice_id replay_events = 5"
    by (simp add: replay_events_def toLowerCase_alice)
  from duplicate_delivery [where db = after_once and w = alice_id and es = replay_events] l0
  have "currentBalance (liveEvents (replay_events @ replay_events) after_once) alice_id ''locked''
      = currentBalance after_once alice_id ''locked'' + 2 * locked_deposits alice_id replay_events"
    by blast
  then have 6: "currentBalance (liveEvents (replay_events @ replay_events) after_once)
      alice_id ''locked'' = 15"
    by (simp add: ld after_once_facts)
  have w0: "will_exists after_once (toLowerCase alice) \<and>
      0 \<le> currentBalance after_once (toLowerCase alice) ''locked''"
    by (simp add: toLowerCase_alice after_once_facts)
  note T = duplicate_delivery [where db = after_once and now = 1700000500]
  have 1: "listener 1700000500 (CheckInEv alice 1700000450)
      (listener 1700000500 (CheckInEv alice 1700000450) after_once) =
     listener 1700000500 (CheckInEv alice 1700000450) after_once"
    using T [where ev = "CheckInEv alice 1700000450"] by simp
  from T [where t = alice and a = 5] w0 have
    "currentBalance (listener 1700000500 (DepositLockedEv alice 5) after_once)
        (toLowerCase alice) ''locked'' =
        currentBalance after_once (toLowerCase alice) ''locked'' + int 5 \<and>
     currentBalance (listener 1700000500 (DepositLockedEv alice 5)
        (listener 1700000500 (DepositLockedEv alice 5) after_once)) (toLowerCase alice) ''locked''
       = currentBalance after_once (toLowerCase alice) ''locked'' + 2 * int 5"
    by blast
  then have 2: "currentBalance (listener 1700000500 (DepositLockedEv alice 5) after_once)
        alice_id ''locked'' = 10"
    "currentBalance (listener 1700000500 (DepositLockedEv alice 5)
        (listener 1700000500 (DepositLockedEv alice 5) after_once)) alice_id ''locked'' = 15"
    by (simp_all add: toLowerCase_alice after_once_facts)
  have 3: "forget_ids (listener 1700000500 (BeneficiaryAddedEv alice bob 60 True)
      (listener 1700000500 (BeneficiaryAddedEv alice bob 60 True) after_once)) =
     forget_ids (listener 1700000500 (BeneficiaryAddedEv alice bob 60 True) after_once)"
    using T [where ev = "BeneficiaryAddedEv alice bob 60 True"] by simp
  have f0: "will_exists after_once (toLowerCase alice) \<and>
      0 \<le> currentBalance after_once (toLowerCase alice) ''flexible''"
    by (simp add: toLowerCase_alice after_once_facts)
  from T [where t = alice and a = 5] f0 have
    "currentBalance (listener 1700000500 (DepositFlexibleEv alice 5)
        (listener 1700000500 (DepositFlexibleEv alice 5) after_once)) (toLowerCase alice)
        ''flexible''
       = currentBalance after_once (toLowerCase alice) ''flexible'' + 2 * int 5"
    by blast
  then have 4: "currentBalance (listener 1700000500 (DepositFlexibleEv alice 5)
        (listener 1700000500 (DepositFlexibleEv alice 5) after_once)) alice_id ''flexible'' = 10"
    by (simp add: toLowerCase_alice after_once_facts)
  from T [where t = alice and a = 5] f0 have
    "currentBalance (listener 1700000500 (WithdrawFlexibleEv alice 5)
        (listener 1700000500 (WithdrawFlexibleEv alice 5) after_once)) (toLowerCase alice)
        ''flexible''
       = max 0 (max 0 (currentBalance after_once (toLowerCase alice) ''flexible'' - int 5)
                - int 5)"
    by blast
  then have 5: "currentBalance (listener 1700000500 (WithdrawFlexibleEv alice 5)
        (listener 1700000500 (WithdrawFlexibleEv alice 5) after_once)) alice_id ''flexible'' = 0"
    by (simp add: toLowerCase_alice after_once_facts)
  from 1 2 3 4 5 6 show ?thesis by blast
qed

lemma list_all2_filter_rel:
  assumes "list_all2 P xs ys" "\<And>x y. P x y \<Longrightarrow> p x = q y" "\<And>x y. P x y \<Longrightarrow> p x \<Longrightarrow> Q x y"
  shows "list_all2 Q (filter p xs) (filter q ys)"
  using assms(1)
proof (induction rule: list_all2_induct)
  case Nil
  show ?case by simp
next
  case (Cons x xs y ys)
  from assms(2) [OF Cons.hyps(1)] assms(3) [OF Cons.hyps(1)] Cons.IH show ?case by auto
qed

lemma list_all2_map_rel:
  assumes "list_all2 P xs ys" "\<And>x y. P x y \<Longrightarrow> Q (f x) (g y)"
  shows "list_all2 Q (map f xs) (map g ys)"
  using assms(1)
proof (induction rule: list_all2_induct)
  case Nil
  show ?case by simp
next
  case (Cons x xs y ys)
  from assms(2) [OF Cons.hyps(1)] Cons.IH show ?case by simp
qed

lemma list_all2_map_eq:
  assumes "list_all2 (\<lambda>x y. f x = f y) xs ys"
  shows "map f xs = map f ys"
  using assms by (induction rule: list_all2_induct) simp_all

lemma same_row_iff:
  "same_row S x y \<longleftrightarrow>
     w_willId x = w_willId y \<and> w_testator x = w_testator y \<and> w_guardian x = w_guardian y \<and>
     w_checkInPeriod x = w_checkInPeriod y \<and> w_disputePeriod x = w_disputePeriod y \<and>
     w_executed x = w_executed y \<and>
     (w_willId x \<notin> S \<longrightarrow> w_lastCheckIn x = w_lastCheckIn y) \<and>
     (w_willId x \<in> S \<longrightarrow> w_testator x = w_willId x)"
  by (cases x, cases y) (auto simp: same_row_def erase_stamps_row_def)

lemma same_replica_refl: "same_replica {} db db"
  by (simp add: same_replica_def same_row_def list_all2_refl)

lemma same_replica_erase:
  assumes "same_replica S db1 db2"
  shows "erase_stamps S db1 = erase_stamps S db2"
proof -
  have "list_all2 (\<lambda>x y. erase_stamps_row S x = erase_stamps_row S y) (Wills db1) (Wills db2)"
    using assms unfolding same_replica_def
    by (auto elim!: list_all2_mono simp: same_row_def)
  then have "map (erase_stamps_row S) (Wills db1) = map (erase_stamps_row S) (Wills db2)"
    by (rule list_all2_map_eq)
  with assms show ?thesis
    by (cases db1, cases db2) (simp add: erase_stamps_def same_replica_def)
qed

lemma will_exists_same:
  assumes "same_replica S db1 db2"
  shows "will_exists db1 w = will_exists db2 w"
proof -
  have "list_all2 (same_row S) (filter (\<lambda>x. w_willId x = w) (Wills db1))
          (filter (\<lambda>x. w_willId x = w) (Wills db2))"
    using assms unfolding same_replica_def
    by (intro list_all2_filter_rel [where P = "same_row S"]) (auto simp: same_row_iff)
  then have "length (filter (\<lambda>x. w_willId x = w) (Wills db1)) =
      length (filter (\<lambda>x. w_willId x = w) (Wills db2))"
    by (rule list_all2_lengthD)
  then show ?thesis by (auto simp: will_exists_def)
qed

lemma same_replica_map_Wills:
  assumes "same_replica S db1 db2" "\<And>x y. same_row S x y \<Longrightarrow> same_row S' (f x) (g y)"
  shows "same_replica S' (db1\<lparr>Wills := map f (Wills db1)\<rparr>) (db2\<lparr>Wills := map g (Wills db2)\<rparr>)"
  using assms(1) list_all2_map_rel [where P = "same_row S" and Q = "same_row S'", OF _ assms(2)]
  by (simp add: same_replica_def)

lemma updateGuardian_same:
  assumes "same_replica S db1 db2"
  shows "same_replica S (updateGuardian n1 w g db1) (updateGuardian n2 w g db2)"
  unfolding updateGuardian_def
  by (rule same_replica_map_Wills [OF assms]) (auto simp: same_row_iff)

lemma initializeVaults_fields:
  "Beneficiaries (initializeVaults w db) = Beneficiaries db"
  "Documents (initializeVaults w db) = Documents db"
  "seq_Beneficiaries (initializeVaults w db) = seq_Beneficiaries db"
  "seq_Documents (initializeVaults w db) = seq_Documents db"
  by (simp_all add: initializeVaults_def Let_def)

lemma initializeVaults_Vaults_cong:
  "Vaults db1 = Vaults db2 \<Longrightarrow>
     Vaults (initializeVaults w db1) = Vaults (initializeVaults w db2)"
  by (simp add: initializeVaults_def Let_def)

lemma createWill_same:
  assumes "same_replica S db1 db2"
  shows "same_replica (insert (toLowerCase t) S)
      (catch (db_createWill n1 t c d db1) db1) (catch (db_createWill n2 t c d db2) db2)"
proof -
  let ?w = "toLowerCase t"
  let ?row = "\<lambda>n. \<lparr>w_willId = ?w, w_testator = ?w, w_guardian = None,
             w_checkInPeriod = c, w_disputePeriod = d,
             w_lastCheckIn = n, w_executed = 0, w_createdAt = n, w_updatedAt = n\<rparr>"
  let ?ins = "\<lambda>n db. db\<lparr>Wills := filter (\<lambda>x. w_willId x \<noteq> ?w) (Wills db) @ [?row n]\<rparr>"
  note h = assms [unfolded same_replica_def]
  have f: "list_all2 (same_row (insert ?w S)) (filter (\<lambda>x. w_willId x \<noteq> ?w) (Wills db1))
      (filter (\<lambda>x. w_willId x \<noteq> ?w) (Wills db2))"
    using h by (intro list_all2_filter_rel [where P = "same_row S"]) (auto simp: same_row_iff)
  have r: "same_row (insert ?w S) (?row n1) (?row n2)"
    by (simp add: same_row_iff)
  have w: "list_all2 (same_row (insert ?w S)) (Wills (?ins n1 db1)) (Wills (?ins n2 db2))"
    using f r by (simp add: list_all2_appendI)
  have v: "Vaults (initializeVaults ?w (?ins n1 db1)) = Vaults (initializeVaults ?w (?ins n2 db2))"
    using h by (intro initializeVaults_Vaults_cong) simp
  have "same_replica (insert ?w S) (initializeVaults ?w (?ins n1 db1))
      (initializeVaults ?w (?ins n2 db2))"
    unfolding same_replica_def
    using w v h by (simp add: initializeVaults_Wills initializeVaults_fields)
  then show ?thesis by (simp add: db_createWill_def Let_def catch_simps)
qed

lemma db_call_same:
  assumes "same_replica S db1 db2" "block_lookup_ok ev"
  shows "same_replica (clock_stamped S [ev])
      (catch (db_call n1 ev db1) db1) (catch (db_call n2 ev db2) db2)"
proof -
  note h = assms(1) [unfolded same_replica_def]
  note we = will_exists_same [OF assms(1)]
  have cb: "currentBalance db1 = currentBalance db2"
    using h by (simp add: currentBalance_def fun_eq_iff)
  show ?thesis
  proof (cases ev)
    case (WillCreatedEv t c d)
    then show ?thesis using createWill_same [OF assms(1)] by simp
  next
    case (CheckInEv t ts)
    have "same_replica (S - {toLowerCase t})
        (db1\<lparr>Wills := map (\<lambda>w. if w_testator w = toLowerCase t
              then w\<lparr>w_lastCheckIn := Number ts, w_updatedAt := n1\<rparr> else w) (Wills db1)\<rparr>)
        (db2\<lparr>Wills := map (\<lambda>w. if w_testator w = toLowerCase t
              then w\<lparr>w_lastCheckIn := Number ts, w_updatedAt := n2\<rparr> else w) (Wills db2)\<rparr>)"
      by (rule same_replica_map_Wills [OF assms(1)]) (auto simp: same_row_iff)
    with CheckInEv show ?thesis by (simp add: db_updateLastCheckIn_def catch_simps)
  next
    case (WillExecutedEv t x)
    have "same_replica S
        (db1\<lparr>Wills := map (\<lambda>w. if w_testator w = toLowerCase t
              then w\<lparr>w_executed := 1, w_updatedAt := n1\<rparr> else w) (Wills db1)\<rparr>)
        (db2\<lparr>Wills := map (\<lambda>w. if w_testator w = toLowerCase t
              then w\<lparr>w_executed := 1, w_updatedAt := n2\<rparr> else w) (Wills db2)\<rparr>)"
      by (rule same_replica_map_Wills [OF assms(1)]) (auto simp: same_row_iff)
    with WillExecutedEv show ?thesis by (simp add: db_executeWill_def catch_simps)
  next
    case (BeneficiaryAddedEv t b s g)
    let ?ins = "\<lambda>db. db\<lparr>Beneficiaries :=
                      filter (\<lambda>x. \<not> (b_willId x = toLowerCase t \<and>
                                      b_beneficiary x = toLowerCase b))
                        (Beneficiaries db) @
                      [\<lparr>b_id = seq_Beneficiaries db + 1, b_willId = toLowerCase t,
                        b_beneficiary = toLowerCase b, b_share = Number s\<rparr>],
                    seq_Beneficiaries := seq_Beneficiaries db + 1\<rparr>"
    have i: "same_replica S (?ins db1) (?ins db2)"
      unfolding same_replica_def using h by simp
    show ?thesis
    proof (cases "will_exists db2 (toLowerCase t)")
      case False
      with we BeneficiaryAddedEv assms(1) show ?thesis
        by (simp add: db_addBeneficiary_def Let_def catch_simps)
    next
      case True
      with we have "will_exists db1 (toLowerCase t)" by simp
      with True BeneficiaryAddedEv i updateGuardian_same [OF i] show ?thesis
        by (cases g) (simp_all add: db_addBeneficiary_def Let_def catch_simps)
    qed
  next
    case (BeneficiaryRemovedEv t b)
    let ?del = "\<lambda>db. db\<lparr>Beneficiaries :=
                filter (\<lambda>x. \<not> (b_willId x = toLowerCase t \<and>
                                b_beneficiary x = toLowerCase b)) (Beneficiaries db)\<rparr>"
    have i: "same_replica S (?del db1) (?del db2)"
      unfolding same_replica_def using h by simp
    have "same_replica S
        ((?del db1)\<lparr>Wills := map (\<lambda>w. if w_willId w = toLowerCase t \<and>
                                    w_guardian w = Some (toLowerCase b)
                                 then w\<lparr>w_guardian := None, w_updatedAt := n1\<rparr>
                                 else w) (Wills (?del db1))\<rparr>)
        ((?del db2)\<lparr>Wills := map (\<lambda>w. if w_willId w = toLowerCase t \<and>
                                    w_guardian w = Some (toLowerCase b)
                                 then w\<lparr>w_guardian := None, w_updatedAt := n2\<rparr>
                                 else w) (Wills (?del db2))\<rparr>)"
      by (rule same_replica_map_Wills [OF i]) (auto simp: same_row_iff)
    with BeneficiaryRemovedEv show ?thesis
      by (simp add: db_removeBeneficiary_def Let_def catch_simps)
  next
    case (BeneficiaryUpdatedEv t b s g)
    let ?upd = "\<lambda>db. db\<lparr>Beneficiaries :=
                     map (\<lambda>x. if b_willId x = toLowerCase t \<and>
                                  b_beneficiary x = toLowerCase b
                               then x\<lparr>b_share := Number s\<rparr> else x)
                       (Beneficiaries db)\<rparr>"
    have i: "same_replica S (?upd db1) (?upd db2)"
      unfolding same_replica_def using h by simp
    with BeneficiaryUpdatedEv updateGuardian_same [OF i] show ?thesis
      by (cases g) (simp_all add: db_updateBeneficiary_def Let_def catch_simps)
  next
    case (DepositLockedEv t a)
    with we h cb assms(1) show ?thesis
      by (cases "will_exists db2 (toLowerCase t)")
         (simp_all add: updateVaultBalance_Inr updateVaultBalance_Inl catch_simps
                        same_replica_def)
  next
    case (DepositFlexibleEv t a)
    with we h cb assms(1) show ?thesis
      by (cases "will_exists db2 (toLowerCase t)")
         (simp_all add: updateVaultBalance_Inr updateVaultBalance_Inl catch_simps
                        same_replica_def)
  next
    case (WithdrawFlexibleEv t a)
    with we h cb assms(1) show ?thesis
      by (cases "will_exists db2 (toLowerCase t)")
         (simp_all add: updateVaultBalance_Inr updateVaultBalance_Inl catch_simps
                        same_replica_def)
  next
    case (DisputeStartedEv t d)
    with assms(1) show ?thesis by (simp add: catch_simps)
  next
    case (DocumentAddedEv t hsh f d ts)
    with assms(2) obtain x where ts: "ts = Some x" by (cases ts) simp_all
    with we h DocumentAddedEv assms(1) show ?thesis
      by (cases "will_exists db2 (toLowerCase t)")
         (simp_all add: db_addDocument_def Let_def catch_simps same_replica_def)
  next
    case (DocumentRemovedEv t hsh)
    with h show ?thesis
      by (simp add: db_removeDocument_def Let_def catch_simps same_replica_def)
  next
    case (UnknownEv n)
    with assms(1) show ?thesis by (simp add: catch_simps)
  qed
qed

lemma clock_stamped_Cons:
  "clock_stamped S (ev # evs) = clock_stamped (clock_stamped S [ev]) evs"
  by (cases ev) simp_all

lemma liveEvents_same:
  assumes "map snd run1 = map snd run2" "list_all block_lookup_ok (map snd run1)"
    "same_replica S db1 db2"
  shows "same_replica (clock_stamped S (map snd run1)) (liveEvents run1 db1) (liveEvents run2 db2)"
  using assms
proof (induction run1 arbitrary: run2 db1 db2 S)
  case Nil
  then show ?case by simp
next
  case (Cons p run1)
  obtain n1 ev where p: "p = (n1, ev)" by (cases p)
  from Cons.prems(1) p obtain n2 rest where r2: "run2 = (n2, ev) # rest"
    and rest: "map snd run1 = map snd rest"
    by (cases run2) auto
  have ok: "block_lookup_ok ev" "list_all block_lookup_ok (map snd run1)"
    using Cons.prems(2) p by simp_all
  have "same_replica (clock_stamped S [ev]) (listener n1 ev db1) (listener n2 ev db2)"
    unfolding listener_def by (rule db_call_same [OF Cons.prems(3) ok(1)])
  from Cons.IH [OF rest ok(2) this] show ?case
    using clock_stamped_Cons [of S ev "map snd run1"] by (simp add: p r2)
qed

lemma liveEvents_erase_stamps:
  assumes "map snd run1 = map snd run2" "list_all block_lookup_ok (map snd run1)"
  shows "erase_stamps (clock_stamped {} (map snd run1)) (liveEvents run1 db) =
     erase_stamps (clock_stamped {} (map snd run1)) (liveEvents run2 db)"
  by (rule same_replica_erase) (rule liveEvents_same [OF assms same_replica_refl])

lemma checkIn_lastCheckIn:
  assumes "w \<in> set (Wills (listener now (CheckInEv t ts) db))" "w_testator w = toLowerCase t"
  shows "w_lastCheckIn w = Number ts"
  using assms by (auto simp: listener_def db_updateLastCheckIn_def catch_simps split: if_splits)

lemma processHistoricalEvent_listener:
  "block_lookup_ok ev \<Longrightarrow> processHistoricalEvent now ev db = listener now ev db"
  by (cases "(now, ev, db)" rule: processHistoricalEvent.cases) (simp_all add: listener_def)

lemma syncHistoricalEvents_liveEvents:
  "list_all block_lookup_ok (map snd evs) \<Longrightarrow>
     syncHistoricalEvents (map (\<lambda>(now, ev). (now, Some ev)) evs) db = liveEvents evs db"
  by (induction evs db rule: liveEvents.induct) (simp_all add: processHistoricalEvent_listener)

lemma live_run_db_calls: "live_run steps db = liveEvents (db_calls steps) db"
  by (induction steps arbitrary: db rule: db_calls.induct) (simp_all add: listener_def)

lemma db_calls_prompt: "db_calls (prompt evs) = evs"
  by (induction evs rule: prompt.induct) simp_all

lemma live_run_prompt: "live_run (prompt evs) db = liveEvents evs db"
  by (simp add: live_run_db_calls db_calls_prompt)

text \<open>
  Claim C1 (projection idempotence) at the log \<open>[WillCreated, DepositLocked 5]\<close>.
  Applied once to the fresh replica the log stores a locked balance of 5. Applied twice
  it stores 10, and so does the backfill of \<open>syncHistoricalEvents\<close> when it runs, as it
  does at every start of the indexer, over a replica that already holds the log: every
  other column is as after one application, the will row included, and the vault
  balance alone has counted the deposit twice. \<open>updateVaultBalance\<close> adds the amount of
  the event to the stored balance instead of storing an amount that the event
  determines.
\<close>

theorem replay_twice_accumulates:
  "liveEvents replay_events empty_database = after_once \<and>
   currentBalance (liveEvents replay_events empty_database) alice_id ''locked'' = 5 \<and>
   liveEvents (replay_events @ replay_events) empty_database =
     after_once\<lparr>Vaults := [\<lparr>v_willId = alice_id, v_vaultType = ''flexible'', v_balance = 0\<rparr>,
                \<lparr>v_willId = alice_id, v_vaultType = ''locked'', v_balance = 10\<rparr>]\<rparr> \<and>
   syncHistoricalEvents (map (\<lambda>(now, ev). (now, Some ev)) replay_events)
       (liveEvents replay_events empty_database) =
     liveEvents (replay_events @ replay_events) empty_database \<and>
   currentBalance (liveEvents (replay_events @ replay_events) empty_database) alice_id ''locked''
     = 10 \<and>
   liveEvents (replay_events @ replay_events) empty_database
     \<noteq> liveEvents replay_events empty_database"
proof -
  have "syncHistoricalEvents (map (\<lambda>(now, ev). (now, Some ev)) replay_events) after_once =
      liveEvents replay_events after_once"
    by (rule syncHistoricalEvents_liveEvents) (simp add: replay_events_def)
  then show ?thesis
    by (simp add: liveEvents_append replay_once replay_twice)
       (simp add: after_once_def currentBalance_def)
qed

lemma run_early:
  "liveEvents early_run empty_database =
     after_once\<lparr>Wills := [\<lparr>w_willId = alice_id, w_testator = alice_id, w_guardian = None,
                w_checkInPeriod = 2592000, w_disputePeriod = 604800,
                w_lastCheckIn = 1700000450, w_executed = 0, w_createdAt = 1700000000,
                w_updatedAt = 1700000500\<rparr>]\<rparr>"
  by (simp add: early_run_def checkin_log_def listener_def catch_def db_createWill_def
                db_updateLastCheckIn_def
                initializeVaults_def db_updateVaultBalance_def currentBalance_def
                will_exists_def empty_database_def toLowerCase_alice Number_small
                after_once_def Let_def)

lemma run_late:
  "liveEvents late_run empty_database =
     after_once\<lparr>Wills := [\<lparr>w_willId = alice_id, w_testator = alice_id, w_guardian = None,
                w_checkInPeriod = 2592000, w_disputePeriod = 604800,
                w_lastCheckIn = 1700000450, w_executed = 0, w_createdAt = 1800000000,
                w_updatedAt = 1800000500\<rparr>]\<rparr>"
  by (simp add: late_run_def checkin_log_def listener_def catch_def db_createWill_def
                db_updateLastCheckIn_def
                initializeVaults_def db_updateVaultBalance_def currentBalance_def
                will_exists_def empty_database_def toLowerCase_alice Number_small
                after_once_def Let_def)

lemma runs_same_log:
  "map snd early_run = checkin_log" "map snd late_run = checkin_log"
  "list_all block_lookup_ok checkin_log" "clock_stamped {} checkin_log = {}"
  by (simp_all add: early_run_def late_run_def checkin_log_def)

text \<open>
  Claim C3 as stated fails: the same events applied at other clock readings, by the live
  listeners or by the backfill, give another replica. With the log \<open>[WillCreated,
  CheckIn, DepositLocked]\<close> the two runs agree on \<open>lastCheckIn\<close>, which is the timestamp
  of the \<open>CheckIn\<close> event, and differ in \<open>createdAt\<close> and \<open>updatedAt\<close>, which are the
  clock readings of the run.
\<close>

theorem clock_dependence_counterexample:
  "map snd late_run = map snd early_run \<and>
   map w_lastCheckIn (Wills (liveEvents early_run empty_database)) = [1700000450] \<and>
   map w_lastCheckIn (Wills (liveEvents late_run empty_database)) = [1700000450] \<and>
   map w_createdAt (Wills (liveEvents early_run empty_database)) = [1700000000] \<and>
   map w_createdAt (Wills (liveEvents late_run empty_database)) = [1800000000] \<and>
   map w_updatedAt (Wills (liveEvents early_run empty_database)) = [1700000500] \<and>
   map w_updatedAt (Wills (liveEvents late_run empty_database)) = [1800000500] \<and>
   liveEvents late_run empty_database \<noteq> liveEvents early_run empty_database \<and>
   syncHistoricalEvents (map (\<lambda>(now, ev). (now, Some ev)) late_run) empty_database
     \<noteq> liveEvents early_run empty_database"
proof -
  have "syncHistoricalEvents (map (\<lambda>(now, ev). (now, Some ev)) late_run) empty_database =
      liveEvents late_run empty_database"
    by (rule syncHistoricalEvents_liveEvents) (simp add: runs_same_log)
  then show ?thesis
    by (simp add: run_early run_late runs_same_log)
       (simp add: after_once_def)
qed

text \<open>
  When the block lookup of a \<open>DocumentAdded\<close> event completes after a later event has
  been handled, the live run makes its database calls in another order than the
  backfill, which awaits each lookup: here the document removed by the second event is
  in the replica of the live run and not in that of the backfill.
\<close>

lemma deferred_lookup_reorders:
  "map d_ipfsHash (Documents (live_run deferred_run after_once)) =
     [''QmYwAPJzv5CZsnA625s3Xf2nemtYgPpHdWEz79ojWnPbdG''] \<and>
   Documents (syncHistoricalEvents (map (\<lambda>(now, ev). (now, Some ev)) document_log) after_once)
     = [] \<and>
   Documents (live_run (prompt document_log) after_once) = []"
  by (simp add: deferred_run_def document_log_def listener_def catch_def db_addDocument_def
                db_removeDocument_def will_exists_def toLowerCase_alice after_once_def Let_def)

text \<open>
  Claim C3, as amended (what the replica is a function of). The replica is computed from
  the database calls of the run, in the order in which they are made, together with the
  clock reading taken at each of them. Two runs that make the same calls in the same
  order (block lookups succeeding) from the same replica end in replicas that agree on
  everything but the columns \<open>createdAt\<close> and \<open>updatedAt\<close> of \<open>Wills\<close>, whatever the clock
  readings; they agree on \<open>lastCheckIn\<close> too for every will that has had a \<open>CheckIn\<close>
  event since its \<open>WillCreated\<close> event, a \<open>CheckIn\<close> storing the timestamp of the event.
  Every live run makes the database calls \<open>db_calls\<close> lists for it; and the historical
  backfill computes, from the same events and clock readings, the replica of the live
  run in which every block lookup completes before the next event is handled.
\<close>

theorem replica_clock_dependence:
  "(map snd run1 = map snd run2 \<and> list_all block_lookup_ok (map snd run1) \<longrightarrow>
      erase_stamps (clock_stamped {} (map snd run1)) (liveEvents run1 db) =
      erase_stamps (clock_stamped {} (map snd run1)) (liveEvents run2 db)) \<and>
   (w \<in> set (Wills (listener now (CheckInEv t ts) db)) \<and> w_testator w = toLowerCase t \<longrightarrow>
      w_lastCheckIn w = Number ts) \<and>
   live_run steps db = liveEvents (db_calls steps) db \<and>
   (list_all block_lookup_ok (map snd run1) \<longrightarrow>
      syncHistoricalEvents (map (\<lambda>(now, ev). (now, Some ev)) run1) db =
        live_run (prompt run1) db)"
proof (intro conjI impI)
  assume "map snd run1 = map snd run2 \<and> list_all block_lookup_ok (map snd run1)"
  then show "erase_stamps (clock_stamped {} (map snd run1)) (liveEvents run1 db) =
      erase_stamps (clock_stamped {} (map snd run1)) (liveEvents run2 db)"
    using liveEvents_erase_stamps [of run1 run2 db] by blast
next
  assume "w \<in> set (Wills (listener now (CheckInEv t ts) db)) \<and> w_testator w = toLowerCase t"
  then show "w_lastCheckIn w = Number ts"
    using checkIn_lastCheckIn [of w now t ts db] by blast
next
  show "live_run steps db = liveEvents (db_calls steps) db"
    by (rule live_run_db_calls)
next
  assume "list_all block_lookup_ok (map snd run1)"
  then show "syncHistoricalEvents (map (\<lambda>(now, ev). (now, Some ev)) run1) db =
        live_run (prompt run1) db"
    using syncHistoricalEvents_liveEvents [of run1 db] live_run_prompt [of run1 db] by simp
qed

theorem replica_clock_dependence_witness:
  "erase_stamps {} (liveEvents early_run empty_database) =
     erase_stamps {} (liveEvents late_run empty_database) \<and>
   map w_lastCheckIn (Wills (erase_stamps {} (liveEvents late_run empty_database))) =
     [1700000450] \<and>
   map w_lastCheckIn (Wills (listener 1800000500 (CheckInEv alice 1700000450) after_once)) =
     [1700000450] \<and>
   erase_stamps {alice_id} (liveEvents replay_events empty_database) =
     erase_stamps {alice_id} (liveEvents late_events empty_database) \<and>
   syncHistoricalEvents (map (\<lambda>(now, ev). (now, Some ev)) document_log) after_once =
     live_run (prompt document_log) after_once"
proof -
  note T = replica_clock_dependence [where db = empty_database]
  have h: "map snd early_run = map snd late_run \<and>
      list_all block_lookup_ok (map snd early_run)"
    by (simp add: runs_same_log)
  from T [where ?run1.0 = early_run and ?run2.0 = late_run] h
  have "erase_stamps (clock_stamped {} (map snd early_run)) (liveEvents early_run empty_database) =
     erase_stamps (clock_stamped {} (map snd early_run)) (liveEvents late_run empty_database)"
    by blast
  then have 1: "erase_stamps {} (liveEvents early_run empty_database) =
     erase_stamps {} (liveEvents late_run empty_database)"
    by (simp only: runs_same_log)
  have 2: "map w_lastCheckIn (Wills (erase_stamps {} (liveEvents late_run empty_database))) =
     [1700000450]"
    by (simp add: run_late erase_stamps_def erase_stamps_row_def)
  define w where "w = hd (Wills (listener 1800000500 (CheckInEv alice 1700000450) after_once))"
  have ws: "Wills (listener 1800000500 (CheckInEv alice 1700000450) after_once) = [w]"
    unfolding w_def
    by (simp add: listener_def db_updateLastCheckIn_def catch_def after_once_def
                  toLowerCase_alice)
  have wt: "w_testator w = toLowerCase alice"
    unfolding w_def
    by (simp add: listener_def db_updateLastCheckIn_def catch_def after_once_def
                  toLowerCase_alice)
  from replica_clock_dependence [where db = after_once and w = w and now = 1800000500
      and t = alice and ts = 1700000450] ws wt
  have "w_lastCheckIn w = Number 1700000450" by simp
  then have 3: "map w_lastCheckIn
      (Wills (listener 1800000500 (CheckInEv alice 1700000450) after_once)) = [1700000450]"
    by (simp add: ws Number_small)
  have h4: "map snd replay_events = map snd late_events \<and>
      list_all block_lookup_ok (map snd replay_events)"
    by (simp add: replay_events_def late_events_def)
  have cs: "clock_stamped {} (map snd replay_events) = {alice_id}"
    by (simp add: replay_events_def toLowerCase_alice)
  from T [where ?run1.0 = replay_events and ?run2.0 = late_events] h4
  have "erase_stamps (clock_stamped {} (map snd replay_events))
       (liveEvents replay_events empty_database) =
     erase_stamps (clock_stamped {} (map snd replay_events))
       (liveEvents late_events empty_database)"
    by blast
  then have 4: "erase_stamps {alice_id} (liveEvents replay_events empty_database) =
     erase_stamps {alice_id} (liveEvents late_events empty_database)"
    by (simp only: cs)
  have "list_all block_lookup_ok (map snd document_log)"
    by (simp add: document_log_def)
  with replica_clock_dependence [where db = after_once and ?run1.0 = document_log]
  have 5: "syncHistoricalEvents (map (\<lambda>(now, ev). (now, Some ev)) document_log) after_once =
     live_run (prompt document_log) after_once"
    by blast
  from 1 2 3 4 5 show ?thesis by blast
qed

subsection \<open>The query API\<close>

lemma isValidAddress_alice_id: "isValidAddress alice_id"
  by (simp add: isValidAddress_def alice_id_def)

lemma query_simps: "query (Up db) q = Inr (q db)" "query (Down message) q = Inl message"
  by (simp_all add: query_def)

text \<open>
  Claim C9 as stated fails: for a well-formed identity with no will in the replica,
  \<open>/vaults/{willId}\<close> answers 200 with an empty object, not 404; so does
  \<open>/wills/{testator}\<close> with an empty list.
\<close>

theorem vaults_unknown_will_counterexample:
  "isValidAddress alice_id \<and>
   getWillDetails empty_database alice_id = None \<and>
   getVaults empty_database alice_id = [] \<and>
   serve False (Up empty_database) (GetVaults alice_id) =
     Success 200 (VaultData alice_id Map.empty []) \<and>
   status (serve False (Up empty_database) (GetVaults alice_id)) \<noteq> 404 \<and>
   serve False (Up empty_database) (GetWillsByTestator alice_id) = Success 200 (WillRows [] 0) \<and>
   status (serve False (Up empty_database) (GetWillsByTestator alice_id)) \<noteq> 404"
  by (simp add: isValidAddress_alice_id getWillDetails_def getVaults_def empty_database_def
                get_vaults_def get_wills_testator_def getWillsByTestator_def query_simps)

lemma serve_invalid:
  assumes "\<not> isValidAddress (identity req)"
  shows "status (serve development h req) = 400"
    and "serve development h req = serve development h' req"
  using assms
  by (cases req;
      simp add: get_wills_testator_def get_wills_beneficiary_def get_will_def
                get_beneficiaries_def get_vaults_def get_documents_def get_document_def)+

lemma serve_invalid_hash:
  assumes "\<not> isValidIpfsHash hash"
  shows "status (serve development h (GetDocument x hash)) = 400"
    and "serve development h (GetDocument x hash) = serve development h' (GetDocument x hash)"
  using assms by (simp_all add: get_document_def)

lemma serve_down:
  assumes "well_formed req"
  shows "\<exists>generic. \<forall>message development.
     serve development (Down message) req =
       Failure 500 generic (if development then Some message else None)"
  using assms
  by (cases req;
      simp add: get_wills_testator_def get_wills_beneficiary_def get_will_def
                get_beneficiaries_def get_vaults_def get_documents_def get_document_def
                query_simps handleError_def)

lemma serve_collections:
  assumes "isValidAddress x"
  shows "serve development (Up db) (GetWillsByTestator x) =
       Success 200 (WillRows (getWillsByTestator db x) (length (getWillsByTestator db x)))"
    "serve development (Up db) (GetWillsByBeneficiary x) =
       Success 200 (WillShareRows (getWillsByBeneficiary db x)
                      (length (getWillsByBeneficiary db x)))"
    "serve development (Up db) (GetBeneficiaries x) =
       Success 200 (BeneficiaryWillRows (getBeneficiaryWills db x)
                      (length (getBeneficiaryWills db x)))"
    "serve development (Up db) (GetVaults x) =
       Success 200 (VaultData x (map_of (rev (getVaults db x))) (getVaults db x))"
    "serve development (Up db) (GetDocuments x) =
       Success 200 (DocumentRows x (getDocuments db x) (length (getDocuments db x)))"
  using assms
  by (simp_all add: get_wills_testator_def get_wills_beneficiary_def
                    get_beneficiaries_def get_vaults_def get_documents_def query_simps)

text \<open>The rows a collection query returns are the rows of the replica that match.\<close>

lemma rows_found:
  "set (getWillsByTestator db x) = {w \<in> set (Wills db). w_testator w = toLowerCase x}"
  "set (getWillsByBeneficiary db x) =
     {(w, b_share b) | w b. b \<in> set (Beneficiaries db) \<and> b_beneficiary b = toLowerCase x \<and>
                            w \<in> set (Wills db) \<and> w_willId w = b_willId b}"
  "getBeneficiaryWills db x =
     map (\<lambda>(w, sh). (w_willId w, w_testator w, w_executed w, sh)) (getWillsByBeneficiary db x)"
  "set (getVaults db x) =
     (\<lambda>v. (v_vaultType v, v_balance v)) ` {v \<in> set (Vaults db). v_willId v = toLowerCase x}"
  "set (getDocuments db x) =
     (\<lambda>d. (d_ipfsHash d, d_fileName d, d_documentType d, d_uploadedAt d)) `
       {d \<in> set (Documents db). d_willId d = toLowerCase x}"
proof -
  show "set (getWillsByTestator db x) = {w \<in> set (Wills db). w_testator w = toLowerCase x}"
    by (auto simp: getWillsByTestator_def)
  show "set (getWillsByBeneficiary db x) =
     {(w, b_share b) | w b. b \<in> set (Beneficiaries db) \<and> b_beneficiary b = toLowerCase x \<and>
                            w \<in> set (Wills db) \<and> w_willId w = b_willId b}"
    by (auto simp: getWillsByBeneficiary_def)
  show "getBeneficiaryWills db x =
     map (\<lambda>(w, sh). (w_willId w, w_testator w, w_executed w, sh)) (getWillsByBeneficiary db x)"
    by (simp add: getBeneficiaryWills_def)
  show "set (getVaults db x) =
     (\<lambda>v. (v_vaultType v, v_balance v)) ` {v \<in> set (Vaults db). v_willId v = toLowerCase x}"
    by (auto simp: getVaults_def)
  show "set (getDocuments db x) =
     (\<lambda>d. (d_ipfsHash d, d_fileName d, d_documentType d, d_uploadedAt d)) `
       {d \<in> set (Documents db). d_willId d = toLowerCase x}"
    by (auto simp: getDocuments_def)
qed

text \<open>
  Claim C9, as amended (error contract of the query API). For every read endpoint with
  an identity parameter: a parameter that fails the address validation is answered
  with 400, whatever the database would do, and so is a hash that fails the hash
  validation; when a statement throws, a well-formed request is answered with 500 and a
  message fixed per endpoint, with the error's own message only in development mode; an
  error that reaches the global error handler is answered with 500 and "Unexpected
  server error" in the same way. An unknown resource is answered with 404 by
  \<open>/will/{id}\<close> (no will row) and by \<open>/documents/{willId}/{hash}\<close> (no such document);
  when the will or the document is found they answer 200 with it.
  \<open>/wills/{testator}\<close>, \<open>/wills/beneficiary/{b}\<close>, \<open>/beneficiaries/{b}\<close>,
  \<open>/vaults/{willId}\<close> and \<open>/documents/{willId}\<close> answer every well-formed identity,
  known or not, with 200 and the rows found: the body holds what the query function
  returns, which is, row for row, what the replica holds for that identity, and nothing
  when it holds nothing.
\<close>

theorem api_error_contract:
  "(\<not> isValidAddress (identity req) \<longrightarrow>
      status (serve development h req) = 400 \<and>
      serve development h req = serve development h' req) \<and>
   (\<not> isValidIpfsHash hash \<longrightarrow>
      status (serve development h (GetDocument x hash)) = 400 \<and>
      serve development h (GetDocument x hash) = serve development h' (GetDocument x hash)) \<and>
   (well_formed req \<longrightarrow>
      (\<exists>generic. \<forall>message dev.
         serve dev (Down message) req =
           Failure 500 generic (if dev then Some message else None))) \<and>
   global_error_handler development message =
     Failure 500 ''Unexpected server error'' (if development then Some message else None) \<and>
   (isValidAddress x \<and> getWillDetails db x = None \<longrightarrow>
      serve development (Up db) (GetWill x) = Failure 404 ''Will not found'' None) \<and>
   (getWillDetails db x = None) = (\<not> will_exists db (toLowerCase x)) \<and>
   (isValidAddress x \<and> getWillDetails db x = Some details \<longrightarrow>
      serve development (Up db) (GetWill x) = Success 200 (WillDetailsData details)) \<and>
   (isValidAddress x \<and> isValidIpfsHash hash \<and> getDocumentByHash db x hash = None \<longrightarrow>
      serve development (Up db) (GetDocument x hash) = Failure 404 ''Document not found'' None) \<and>
   (isValidAddress x \<and> isValidIpfsHash hash \<and> getDocumentByHash db x hash = Some document \<longrightarrow>
      serve development (Up db) (GetDocument x hash) = Success 200 (DocumentData document)) \<and>
   (isValidAddress x \<longrightarrow>
      serve development (Up db) (GetWillsByTestator x) =
        Success 200 (WillRows (getWillsByTestator db x) (length (getWillsByTestator db x))) \<and>
      set (getWillsByTestator db x) = {w \<in> set (Wills db). w_testator w = toLowerCase x} \<and>
      serve development (Up db) (GetWillsByBeneficiary x) =
        Success 200 (WillShareRows (getWillsByBeneficiary db x)
                       (length (getWillsByBeneficiary db x))) \<and>
      set (getWillsByBeneficiary db x) =
        {(w, b_share b) | w b. b \<in> set (Beneficiaries db) \<and>
             b_beneficiary b = toLowerCase x \<and> w \<in> set (Wills db) \<and> w_willId w = b_willId b} \<and>
      serve development (Up db) (GetBeneficiaries x) =
        Success 200 (BeneficiaryWillRows (getBeneficiaryWills db x)
                       (length (getBeneficiaryWills db x))) \<and>
      getBeneficiaryWills db x =
        map (\<lambda>(w, sh). (w_willId w, w_testator w, w_executed w, sh))
          (getWillsByBeneficiary db x) \<and>
      serve development (Up db) (GetVaults x) =
        Success 200 (VaultData x (map_of (rev (getVaults db x))) (getVaults db x)) \<and>
      set (getVaults db x) =
        (\<lambda>v. (v_vaultType v, v_balance v)) `
          {v \<in> set (Vaults db). v_willId v = toLowerCase x} \<and>
      serve development (Up db) (GetDocuments x) =
        Success 200 (DocumentRows x (getDocuments db x) (length (getDocuments db x))) \<and>
      set (getDocuments db x) =
        (\<lambda>d. (d_ipfsHash d, d_fileName d, d_documentType d, d_uploadedAt d)) `
          {d \<in> set (Documents db). d_willId d = toLowerCase x})"
proof (intro conjI impI)
  assume "\<not> isValidAddress (identity req)"
  then show "status (serve development h req) = 400"
    "serve development h req = serve development h' req"
    by (rule serve_invalid)+
next
  assume "\<not> isValidIpfsHash hash"
  then show "status (serve development h (GetDocument x hash)) = 400"
    "serve development h (GetDocument x hash) = serve development h' (GetDocument x hash)"
    by (rule serve_invalid_hash)+
next
  assume "well_formed req"
  then show "\<exists>generic. \<forall>message dev.
         serve dev (Down message) req =
           Failure 500 generic (if dev then Some message else None)"
    by (rule serve_down)
next
  show "global_error_handler development message =
     Failure 500 ''Unexpected server error'' (if development then Some message else None)"
    by (simp add: global_error_handler_def handleError_def)
next
  assume "isValidAddress x \<and> getWillDetails db x = None"
  then show "serve development (Up db) (GetWill x) = Failure 404 ''Will not found'' None"
    by (simp add: get_will_def query_simps)
next
  show "(getWillDetails db x = None) = (\<not> will_exists db (toLowerCase x))"
    by (simp add: getWillDetails_def will_exists_def split: list.splits)
next
  assume "isValidAddress x \<and> getWillDetails db x = Some details"
  then show "serve development (Up db) (GetWill x) = Success 200 (WillDetailsData details)"
    by (simp add: get_will_def query_simps)
next
  assume "isValidAddress x \<and> isValidIpfsHash hash \<and> getDocumentByHash db x hash = None"
  then show "serve development (Up db) (GetDocument x hash) =
      Failure 404 ''Document not found'' None"
    by (simp add: get_document_def query_simps)
next
  assume "isValidAddress x \<and> isValidIpfsHash hash \<and> getDocumentByHash db x hash = Some document"
  then show "serve development (Up db) (GetDocument x hash) = Success 200 (DocumentData document)"
    by (simp add: get_document_def query_simps)
next
  assume v: "isValidAddress x"
  show "serve development (Up db) (GetWillsByTestator x) =
        Success 200 (WillRows (getWillsByTestator db x) (length (getWillsByTestator db x)))"
    by (rule serve_collections(1) [OF v])
  show "serve development (Up db) (GetWillsByBeneficiary x) =
        Success 200 (WillShareRows (getWillsByBeneficiary db x)
                       (length (getWillsByBeneficiary db x)))"
    by (rule serve_collections(2) [OF v])
  show "serve development (Up db) (GetBeneficiaries x) =
        Success 200 (BeneficiaryWillRows (getBeneficiaryWills db x)
                       (length (getBeneficiaryWills db x)))"
    by (rule serve_collections(3) [OF v])
  show "serve development (Up db) (GetVaults x) =
        Success 200 (VaultData x (map_of (rev (getVaults db x))) (getVaults db x))"
    by (rule serve_collections(4) [OF v])
  show "serve development (Up db) (GetDocuments x) =
        Success 200 (DocumentRows x (getDocuments db x) (length (getDocuments db x)))"
    by (rule serve_collections(5) [OF v])
  show "set (getWillsByTestator db x) = {w \<in> set (Wills db). w_testator w = toLowerCase x}"
    by (rule rows_found(1))
  show "set (getWillsByBeneficiary db x) =
        {(w, b_share b) | w b. b \<in> set (Beneficiaries db) \<and>
             b_beneficiary b = toLowerCase x \<and> w \<in> set (Wills db) \<and> w_willId w = b_willId b}"
    by (rule rows_found(2))
  show "getBeneficiaryWills db x =
        map (\<lambda>(w, sh). (w_willId w, w_testator w, w_executed w, sh))
          (getWillsByBeneficiary db x)"
    by (rule rows_found(3))
  show "set (getVaults db x) =
        (\<lambda>v. (v_vaultType v, v_balance v)) `
          {v \<in> set (Vaults db). v_willId v = toLowerCase x}"
    by (rule rows_found(4))
  show "set (getDocuments db x) =
        (\<lambda>d. (d_ipfsHash d, d_fileName d, d_documentType d, d_uploadedAt d)) `
          {d \<in> set (Documents db). d_willId d = toLowerCase x}"
    by (rule rows_found(5))
qed

lemma after_once_vaults:
  "getVaults after_once alice_id = [(''flexible'', 0), (''locked'', 5)]"
  by (simp add: getVaults_def after_once_def alice_id_def toLowerCase_def lower_char_def)

theorem api_error_contract_witness:
  "status (serve False (Down ''database is locked'') (GetVaults ''0x12'')) = 400 \<and>
   status (serve False (Up after_once) (GetDocument alice_id ''Qm'')) = 400 \<and>
   (\<exists>generic. \<forall>message dev.
      serve dev (Down message) (GetWill alice_id) =
        Failure 500 generic (if dev then Some message else None)) \<and>
   serve False (Up empty_database) (GetWill alice_id) = Failure 404 ''Will not found'' None \<and>
   serve False (Up empty_database)
      (GetDocument alice_id ''QmYwAPJzv5CZsnA625s3Xf2nemtYgPpHdWEz79ojWnPbdG'') =
     Failure 404 ''Document not found'' None \<and>
   serve False (Up empty_database) (GetVaults alice_id) =
     Success 200 (VaultData alice_id Map.empty []) \<and>
   serve False (Up after_once) (GetVaults alice_id) =
     Success 200 (VaultData alice_id
        (map_of [(''locked'', 5), (''flexible'', 0)]) [(''flexible'', 0), (''locked'', 5)])"
proof -
  have nodoc: "isValidAddress alice_id \<and>
      isValidIpfsHash ''QmYwAPJzv5CZsnA625s3Xf2nemtYgPpHdWEz79ojWnPbdG'' \<and>
      getDocumentByHash empty_database alice_id
        ''QmYwAPJzv5CZsnA625s3Xf2nemtYgPpHdWEz79ojWnPbdG'' = None"
    by (simp add: isValidAddress_alice_id isValidIpfsHash_def getDocumentByHash_def
                  empty_database_def)
  have bad: "\<not> isValidAddress (identity (GetVaults ''0x12''))"
    by (simp add: isValidAddress_def)
  have badhash: "\<not> isValidIpfsHash ''Qm''"
    by (simp add: isValidIpfsHash_def)
  have wf: "well_formed (GetWill alice_id)"
    by (simp add: isValidAddress_alice_id)
  have unknown: "isValidAddress alice_id \<and> getWillDetails empty_database alice_id = None"
    by (simp add: isValidAddress_alice_id getWillDetails_def empty_database_def)
  have novaults: "getVaults empty_database alice_id = []"
    by (simp add: getVaults_def empty_database_def)
  note T = api_error_contract [where development = False and x = alice_id
      and db = empty_database]
  from T [where req = "GetVaults ''0x12''" and h = "Down ''database is locked''"] bad
  have 1: "status (serve False (Down ''database is locked'') (GetVaults ''0x12'')) = 400"
    by blast
  from T [where req = "GetWill alice_id"] wf
  have 2: "\<exists>generic. \<forall>message dev.
      serve dev (Down message) (GetWill alice_id) =
        Failure 500 generic (if dev then Some message else None)"
    by blast
  from T [where req = "GetWill alice_id"] unknown
  have 3: "serve False (Up empty_database) (GetWill alice_id) =
      Failure 404 ''Will not found'' None"
    "serve False (Up empty_database) (GetVaults alice_id) =
       Success 200 (VaultData alice_id (map_of (rev (getVaults empty_database alice_id)))
                      (getVaults empty_database alice_id))"
    by blast+
  from T [where req = "GetWill alice_id"
      and hash = "''QmYwAPJzv5CZsnA625s3Xf2nemtYgPpHdWEz79ojWnPbdG''"] nodoc
  have 4: "serve False (Up empty_database)
      (GetDocument alice_id ''QmYwAPJzv5CZsnA625s3Xf2nemtYgPpHdWEz79ojWnPbdG'') =
     Failure 404 ''Document not found'' None"
    by blast
  from api_error_contract [where development = False and x = alice_id and db = after_once
      and req = "GetWill alice_id" and hash = "''Qm''" and h = "Up after_once"]
    isValidAddress_alice_id badhash
  have 5: "status (serve False (Up after_once) (GetDocument alice_id ''Qm'')) = 400"
    "serve False (Up after_once) (GetVaults alice_id) =
       Success 200 (VaultData alice_id (map_of (rev (getVaults after_once alice_id)))
                      (getVaults after_once alice_id))"
    by blast+
  from 1 2 3 4 5 show ?thesis by (simp add: novaults after_once_vaults)
qed

end
